theory Spec2Isabelle
  imports Main "HOL-Library.Sublist"
begin

section \<open>The backing store\<close>

text \<open>
  The queue of \<^verbatim>\<open>queue.go\<close> talks to a Redis server through a client library. A key
  of the server holds a list of strings or a set of strings; a command on a key of the
  other kind is answered with a type error, and a list that becomes empty is removed
  together with its key. The left end of a list is its head.
\<close>

datatype rvalue = RList "string list" | RSet "string set"

datatype rerror = Transport | WrongType

datatype 'a reply = Val 'a | Err rerror

datatype cmd =
    CmdLPush string string
  | CmdDel string
  | CmdLLen string
  | CmdBRPopLPush string string
  | CmdSAdd string string

datatype Consumer = Handler nat

datatype goroutine = GoConsume | GoAddConsumer Consumer

datatype logline =
    FailedToClear string rerror
  | FailedToAddItself string rerror
  | StartedConsuming string
  | FailedToAddConsumerPanic string
  | FailedToAddConsumer string rerror
  | AddedConsumer string string string
  | FailedToConsume string rerror

datatype event = Log logline | Go goroutine

text \<open>
  The world a queue method runs in: the contents of the server (\<open>kv\<close>), the commands this
  process has sent so far (\<open>oplog\<close>, oldest first), and what the process itself has done
  beside talking to the server (\<open>trace\<close>: lines written with \<^verbatim>\<open>log.Printf\<close> and
  goroutines started with \<^verbatim>\<open>go\<close>). The environment is given by two oracles indexed by
  the number of the command: \<open>faulty i\<close> says that command \<open>i\<close> comes back with a transport
  error and is not executed, and \<open>others i\<close> is what the other clients of the server did to
  its contents since the previous command.
\<close>

record world =
  kv :: "string \<Rightarrow> rvalue option"
  oplog :: "cmd list"
  faulty :: "nat \<Rightarrow> bool"
  others :: "nat \<Rightarrow> (string \<Rightarrow> rvalue option) \<Rightarrow> (string \<Rightarrow> rvalue option)"
  trace :: "event list"

definition fails :: "world \<Rightarrow> bool" where
  "fails w = faulty w (length (oplog w))"

definition seen :: "world \<Rightarrow> string \<Rightarrow> rvalue option" where
  "seen w = others w (length (oplog w)) (kv w)"

definition arrive :: "cmd \<Rightarrow> world \<Rightarrow> world" where
  "arrive c w = w\<lparr>kv := seen w, oplog := oplog w @ [c]\<rparr>"

definition logf :: "logline \<Rightarrow> world \<Rightarrow> world" where
  "logf l w = w\<lparr>trace := trace w @ [Log l]\<rparr>"

definition spawn :: "goroutine \<Rightarrow> world \<Rightarrow> world" where
  "spawn g w = w\<lparr>trace := trace w @ [Go g]\<rparr>"

definition lrange :: "string \<Rightarrow> world \<Rightarrow> string list" where
  "lrange k w = (case kv w k of Some (RList xs) \<Rightarrow> xs | _ \<Rightarrow> [])"

definition smembers :: "string \<Rightarrow> world \<Rightarrow> string set" where
  "smembers k w = (case kv w k of Some (RSet S) \<Rightarrow> S | _ \<Rightarrow> {})"

text \<open>
  Modelled from the spec: the commands of the backing-store client (an external library),
  as section 6 of the specification requires them: atomic left-push, list-length and
  delete on list keys, atomic add on set keys, and the blocking right-pop-and-left-push
  across two lists with no timeout. A command that blocks for ever has no reply: \<open>None\<close>.
\<close>

definition LPush :: "string \<Rightarrow> string \<Rightarrow> world \<Rightarrow> int reply \<times> world" where
  "LPush k v w =
     (let w' = arrive (CmdLPush k v) w in
      if fails w then (Err Transport, w')
      else case kv w' k of
          None \<Rightarrow> (Val 1, w'\<lparr>kv := (kv w')(k \<mapsto> RList [v])\<rparr>)
        | Some (RList xs) \<Rightarrow> (Val (int (length xs) + 1), w'\<lparr>kv := (kv w')(k \<mapsto> RList (v # xs))\<rparr>)
        | Some (RSet S) \<Rightarrow> (Err WrongType, w'))"

definition Del :: "string \<Rightarrow> world \<Rightarrow> int reply \<times> world" where
  "Del k w =
     (let w' = arrive (CmdDel k) w in
      if fails w then (Err Transport, w')
      else case kv w' k of
          None \<Rightarrow> (Val 0, w')
        | Some v \<Rightarrow> (Val 1, w'\<lparr>kv := (kv w')(k := None)\<rparr>))"

definition LLen :: "string \<Rightarrow> world \<Rightarrow> int reply \<times> world" where
  "LLen k w =
     (let w' = arrive (CmdLLen k) w in
      if fails w then (Err Transport, w')
      else case kv w' k of
          None \<Rightarrow> (Val 0, w')
        | Some (RList xs) \<Rightarrow> (Val (int (length xs)), w')
        | Some (RSet S) \<Rightarrow> (Err WrongType, w'))"

definition SAdd :: "string \<Rightarrow> string \<Rightarrow> world \<Rightarrow> int reply \<times> world" where
  "SAdd k v w =
     (let w' = arrive (CmdSAdd k v) w in
      if fails w then (Err Transport, w')
      else case kv w' k of
          None \<Rightarrow> (Val 1, w'\<lparr>kv := (kv w')(k \<mapsto> RSet {v})\<rparr>)
        | Some (RSet S) \<Rightarrow> (Val (if v \<in> S then 0 else 1), w'\<lparr>kv := (kv w')(k \<mapsto> RSet (insert v S))\<rparr>)
        | Some (RList xs) \<Rightarrow> (Err WrongType, w'))"

definition store_list :: "string \<Rightarrow> string list \<Rightarrow> (string \<Rightarrow> rvalue option) \<Rightarrow> (string \<Rightarrow> rvalue option)" where
  "store_list k xs m = (if xs = [] then m(k := None) else m(k \<mapsto> RList xs))"

definition BRPopLPush :: "string \<Rightarrow> string \<Rightarrow> world \<Rightarrow> (string reply \<times> world) option" where
  "BRPopLPush src dst w =
     (let w' = arrive (CmdBRPopLPush src dst) w in
      if fails w then Some (Err Transport, w')
      else case kv w' src of
          None \<Rightarrow> None
        | Some (RSet S) \<Rightarrow> Some (Err WrongType, w')
        | Some (RList []) \<Rightarrow> None
        | Some (RList (x # xs)) \<Rightarrow>
            (let v = last (x # xs); m = store_list src (butlast (x # xs)) (kv w') in
             case m dst of
                 None \<Rightarrow> Some (Val v, w'\<lparr>kv := m(dst \<mapsto> RList [v])\<rparr>)
               | Some (RList ys) \<Rightarrow> Some (Val v, w'\<lparr>kv := m(dst \<mapsto> RList (v # ys))\<rparr>)
               | Some (RSet S) \<Rightarrow> Some (Err WrongType, w')))"

section \<open>The queue\<close>

definition connectionQueueConsumersTemplate :: string where
  "connectionQueueConsumersTemplate = ''rmq::connection::{connection}::queue::{queue}::consumers''"

definition connectionQueueUnackedTemplate :: string where
  "connectionQueueUnackedTemplate = ''rmq::connection::{connection}::queue::{queue}::unacked''"

definition queueReadyTemplate :: string where
  "queueReadyTemplate = ''rmq::queue::{queue}::ready''"

definition phConnection :: string where
  "phConnection = ''{connection}''"

definition phQueue :: string where
  "phQueue = ''{queue}''"

text \<open>
  A delivery carries its payload and the key of the unacked list it lives in; the
  delivery channel of a queue is a bounded buffer of deliveries, oldest first.
\<close>

record Delivery =
  payload :: string
  unackedKeyOf :: string

record chan =
  capacity :: nat
  buffer :: "Delivery list"

record Queue =
  name :: string
  connectionName :: string
  queuesKey :: string
  consumersKey :: string
  readyKey :: string
  unackedKey :: string
  deliveryChan :: "chan option"

text \<open>\<^verbatim>\<open>strings.Replace(s, old, new, 1)\<close>: the first occurrence of \<open>old\<close> is replaced.\<close>

fun Replace1 :: "string \<Rightarrow> string \<Rightarrow> string \<Rightarrow> string" where
  "Replace1 [] old new = (if old = [] then new else [])"
| "Replace1 (c # s) old new =
     (if prefix old (c # s) then new @ drop (length old) (c # s)
      else c # Replace1 s old new)"

definition newQueue :: "string \<Rightarrow> string \<Rightarrow> string \<Rightarrow> Queue" where
  "newQueue nm conn qsKey =
     (let unacked0 = Replace1 connectionQueueUnackedTemplate phConnection conn;
          unacked1 = Replace1 unacked0 phQueue nm;
          consumers0 = Replace1 connectionQueueConsumersTemplate phConnection conn;
          consumers1 = Replace1 consumers0 phQueue nm;
          ready = Replace1 queueReadyTemplate phQueue nm
      in \<lparr>name = nm, connectionName = conn, queuesKey = qsKey, consumersKey = consumers1,
          readyKey = ready, unackedKey = unacked1, deliveryChan = None\<rparr>)"

definition String_of :: "Queue \<Rightarrow> string" where
  "String_of q = ''['' @ name q @ '' conn:'' @ connectionName q @ '']''"

definition Publish :: "Queue \<Rightarrow> string \<Rightarrow> world \<Rightarrow> rerror option \<times> world" where
  "Publish q p w =
     (case LPush (readyKey q) p w of
        (Err e, w') \<Rightarrow> (Some e, w')
      | (Val n, w') \<Rightarrow> (None, w'))"

definition Purge :: "Queue \<Rightarrow> world \<Rightarrow> bool \<times> world" where
  "Purge q w =
     (case Del (readyKey q) w of
        (Err e, w') \<Rightarrow> (False, w')
      | (Val n, w') \<Rightarrow> (n > 0, w'))"

definition Clear :: "Queue \<Rightarrow> world \<Rightarrow> int \<times> world" where
  "Clear q w =
     (case Del (readyKey q) w of
        (Err e, w') \<Rightarrow> (0, logf (FailedToClear (String_of q) e) w')
      | (Val n, w') \<Rightarrow> (n, w'))"

text \<open>
  The four errors \<^verbatim>\<open>ReturnUnackedDeliveries\<close> builds with \<^verbatim>\<open>fmt.Errorf\<close>: the count
  before the moves failed, a move failed, the count after the moves failed, and the
  unacked list was found non-empty after the moves.
\<close>

datatype qerror =
    CountBeforeFailed rerror
  | ReturnFailed rerror
  | CountAfterFailed rerror
  | NewUnacked int

fun store_failure :: "qerror \<Rightarrow> bool" where
  "store_failure (NewUnacked m) = False"
| "store_failure e = True"

text \<open>
  The loop \<^verbatim>\<open>for i := 0; i < unackedCount; i++\<close> of \<^verbatim>\<open>ReturnUnackedDeliveries\<close>, by the
  number of rounds left. It ends early with the error of the first move that fails, and
  it does not return when a move blocks for ever. The counts are Go's \<^verbatim>\<open>int64\<close> and
  \<^verbatim>\<open>int\<close>, which hold every length of a list of the server; they are integers here.
\<close>

fun return_loop :: "Queue \<Rightarrow> nat \<Rightarrow> world \<Rightarrow> (qerror option \<times> world) option" where
  "return_loop q 0 w = Some (None, w)"
| "return_loop q (Suc n) w =
     (case BRPopLPush (unackedKey q) (readyKey q) w of
        None \<Rightarrow> None
      | Some (Err e, w') \<Rightarrow> Some (Some (ReturnFailed e), w')
      | Some (Val v, w') \<Rightarrow> return_loop q n w')"

definition ReturnUnackedDeliveries :: "Queue \<Rightarrow> world \<Rightarrow> ((int \<times> qerror option) \<times> world) option" where
  "ReturnUnackedDeliveries q w =
     (case LLen (unackedKey q) w of
        (Err e, w1) \<Rightarrow> Some ((0, Some (CountBeforeFailed e)), w1)
      | (Val unackedCount, w1) \<Rightarrow>
          (case return_loop q (nat unackedCount) w1 of
             None \<Rightarrow> None
           | Some (Some err, w2) \<Rightarrow> Some ((0, Some err), w2)
           | Some (None, w2) \<Rightarrow>
               (case LLen (unackedKey q) w2 of
                  (Err e, w3) \<Rightarrow> Some ((0, Some (CountAfterFailed e)), w3)
                | (Val m, w3) \<Rightarrow>
                    if m \<noteq> 0 then Some ((0, Some (NewUnacked m)), w3)
                    else Some ((unackedCount, None), w3))))"

text \<open>
  A method either returns or panics. \<^verbatim>\<open>log.Panicf\<close> writes its line and panics, and
  \<^verbatim>\<open>make(chan Delivery, bufferSize)\<close> panics with "size out of range" on a negative
  size and on a size whose buffer would pass the allocation limit of the runtime. The
  limit is that of a 64-bit platform: \<open>2 ^ 48\<close> bytes less the 96 bytes of the channel
  header, for elements of two words (a \<^verbatim>\<open>Delivery\<close> is an interface value).
\<close>

datatype panic = MakechanSizeOutOfRange | AddConsumerBeforePrepare string

datatype 'a outcome = Returns 'a | Panics panic

definition makechanLimit :: int where
  "makechanLimit = (2 ^ 48 - 96) div 16"

definition PrepareConsumption :: "int \<Rightarrow> Queue \<Rightarrow> world \<Rightarrow> bool outcome \<times> Queue \<times> world" where
  "PrepareConsumption bufferSize q w =
     (if deliveryChan q \<noteq> None then (Returns False, q, w)
      else case SAdd (queuesKey q) (name q) w of
          (Err e, w1) \<Rightarrow> (Returns False, q, logf (FailedToAddItself (name q) e) w1)
        | (Val n, w1) \<Rightarrow>
            if bufferSize < 0 \<or> makechanLimit < bufferSize then (Panics MakechanSizeOutOfRange, q, w1)
            else
              (let q' = q\<lparr>deliveryChan := Some \<lparr>capacity = nat bufferSize, buffer = []\<rparr>\<rparr>;
                   w2 = snd (LPush (queuesKey q') (name q') w1);
                   w3 = logf (StartedConsuming (String_of q')) w2
               in (Returns True, q', spawn GoConsume w3)))"

text \<open>
  Modelled from the spec: \<^verbatim>\<open>uniuri.NewLen\<close> (an external library) gives a random string
  of the length asked for, each character taken from the letters and digits; \<open>rnd\<close> is the
  sequence of random numbers it draws.
\<close>

definition StdChars :: string where
  "StdChars = ''ABCDEFGHIJKLMNOPQRSTUVWXYZabcdefghijklmnopqrstuvwxyz0123456789''"

definition NewLen :: "nat \<Rightarrow> (nat \<Rightarrow> nat) \<Rightarrow> string" where
  "NewLen n rnd = map (\<lambda>i. StdChars ! (rnd i mod length StdChars)) [0..<n]"

text \<open>\<open>rnd\<close> is the randomness that the call of \<^verbatim>\<open>uniuri.NewLen(6)\<close> in \<open>AddConsumer\<close> draws.\<close>

definition AddConsumer :: "string \<Rightarrow> Consumer \<Rightarrow> (nat \<Rightarrow> nat) \<Rightarrow> Queue \<Rightarrow> world \<Rightarrow> string outcome \<times> world" where
  "AddConsumer tag consumer rnd q w =
     (if deliveryChan q = None
      then (Panics (AddConsumerBeforePrepare (String_of q)),
            logf (FailedToAddConsumerPanic (String_of q)) w)
      else
        (let nm = tag @ ''-'' @ NewLen 6 rnd in
         case SAdd (consumersKey q) nm w of
           (Err e, w1) \<Rightarrow> (Returns [], logf (FailedToAddConsumer nm e) w1)
         | (Val n, w1) \<Rightarrow>
             (Returns nm,
              logf (AddedConsumer (String_of q) nm (consumersKey q)) (spawn (GoAddConsumer consumer) w1))))"

section \<open>The fetcher and the worker\<close>

text \<open>
  Modelled from the spec: \<^verbatim>\<open>newDelivery\<close> (its file is not part of the sources at hand)
  wraps a payload with a reference to the unacked list it lives in.
\<close>

definition newDelivery :: "string \<Rightarrow> string \<Rightarrow> Delivery" where
  "newDelivery p uk = \<lparr>payload = p, unackedKeyOf = uk\<rparr>"

text \<open>
  A send on a channel completes when the buffer has room; on a full channel and on the
  nil channel it blocks (\<open>None\<close>). A receive takes the oldest delivery of the buffer.
\<close>

definition chan_send :: "Delivery \<Rightarrow> chan option \<Rightarrow> chan option" where
  "chan_send d ch =
     (case ch of
        None \<Rightarrow> None
      | Some c \<Rightarrow> if length (buffer c) < capacity c then Some (c\<lparr>buffer := buffer c @ [d]\<rparr>) else None)"

definition chan_recv :: "chan option \<Rightarrow> (Delivery \<times> chan) option" where
  "chan_recv ch =
     (case ch of
        None \<Rightarrow> None
      | Some c \<Rightarrow> (case buffer c of [] \<Rightarrow> None | d # ds \<Rightarrow> Some (d, c\<lparr>buffer := ds\<rparr>)))"

text \<open>
  The first half of one round of \<^verbatim>\<open>consume\<close>: the blocking pop-push from ready to
  unacked. An error is logged and the round ends without a delivery (\<^verbatim>\<open>continue\<close>).
\<close>

definition consume_pop :: "Queue \<Rightarrow> world \<Rightarrow> (Delivery option \<times> world) option" where
  "consume_pop q w =
     (case BRPopLPush (readyKey q) (unackedKey q) w of
        None \<Rightarrow> None
      | Some (Err e, w') \<Rightarrow> Some (None, logf (FailedToConsume (String_of q) e) w')
      | Some (Val v, w') \<Rightarrow> Some (Some (newDelivery v (unackedKey q)), w'))"





section \<open>One queue, one fetcher, one worker\<close>

text \<open>
  The goroutines of a consuming queue take turns. The producer publishes a payload; the
  fetcher is either at its pop-push or holds a delivery it is about to send; the worker
  of \<^verbatim>\<open>addConsumer\<close> receives a delivery and hands it to the handler, which is recorded
  in \<open>delivered\<close>. A worker waiting at an empty buffer takes a delivery straight from the
  sending fetcher. A turn that would block is not taken (\<open>None\<close>).
\<close>

datatype fetcher = AtPop | AtSend Delivery

record sys =
  queue :: Queue
  env :: world
  fetcher :: fetcher
  published :: "string list"
  delivered :: "string list"

datatype action = DoPublish string | DoPop | DoSend | DoReceive

fun step :: "action \<Rightarrow> sys \<Rightarrow> sys option" where
  "step (DoPublish p) s =
     (case Publish (queue s) p (env s) of
        (None, w') \<Rightarrow> Some (s\<lparr>env := w', published := published s @ [p]\<rparr>)
      | (Some e, w') \<Rightarrow> Some (s\<lparr>env := w'\<rparr>))"
| "step DoPop s =
     (case fetcher s of
        AtSend d \<Rightarrow> None
      | AtPop \<Rightarrow>
          (case consume_pop (queue s) (env s) of
             None \<Rightarrow> None
           | Some (None, w') \<Rightarrow> Some (s\<lparr>env := w'\<rparr>)
           | Some (Some d, w') \<Rightarrow> Some (s\<lparr>env := w', fetcher := AtSend d\<rparr>)))"
| "step DoSend s =
     (case fetcher s of
        AtPop \<Rightarrow> None
      | AtSend d \<Rightarrow>
          (case chan_send d (deliveryChan (queue s)) of
             None \<Rightarrow> None
           | Some c \<Rightarrow> Some (s\<lparr>queue := (queue s)\<lparr>deliveryChan := Some c\<rparr>, fetcher := AtPop\<rparr>)))"
| "step DoReceive s =
     (case chan_recv (deliveryChan (queue s)) of
        Some (d, c) \<Rightarrow>
          Some (s\<lparr>queue := (queue s)\<lparr>deliveryChan := Some c\<rparr>,
                  delivered := delivered s @ [payload d]\<rparr>)
      | None \<Rightarrow>
          (case fetcher s of
             AtPop \<Rightarrow> None
           | AtSend d \<Rightarrow>
               if deliveryChan (queue s) = None then None
               else Some (s\<lparr>fetcher := AtPop, delivered := delivered s @ [payload d]\<rparr>)))"

fun run :: "action list \<Rightarrow> sys \<Rightarrow> sys option" where
  "run [] s = Some s"
| "run (a # as) s = (case step a s of None \<Rightarrow> None | Some s' \<Rightarrow> run as s')"

text \<open>The deliveries the fetcher has taken and the worker has not yet been given.\<close>

definition in_flight :: "sys \<Rightarrow> string list" where
  "in_flight s =
     (case deliveryChan (queue s) of None \<Rightarrow> [] | Some c \<Rightarrow> map payload (buffer c))
     @ (case fetcher s of AtPop \<Rightarrow> [] | AtSend d \<Rightarrow> [payload d])"

text \<open>The system at its start: nothing published, nothing delivered, the fetcher at its pop.\<close>

definition start :: "Queue \<Rightarrow> world \<Rightarrow> sys" where
  "start q w = \<lparr>queue = q, env = w, fetcher = AtPop, published = [], delivered = []\<rparr>"

text \<open>
  No other client touches the server; a key that does not hold a set, so that the list
  commands accept it.
\<close>

definition alone :: "world \<Rightarrow> bool" where
  "alone w \<longleftrightarrow> others w = (\<lambda>i. id)"

definition listish :: "string \<Rightarrow> world \<Rightarrow> bool" where
  "listish k w = (case kv w k of Some (RSet S) \<Rightarrow> False | _ \<Rightarrow> True)"


text \<open>What one turn keeps and what it moves.\<close>

definition moves :: "sys \<Rightarrow> sys \<Rightarrow> bool" where
  "moves s s' \<longleftrightarrow>
     readyKey (queue s') = readyKey (queue s) \<and> unackedKey (queue s') = unackedKey (queue s)
     \<and> alone (env s') \<and> faulty (env s') = faulty (env s)
     \<and> (listish (readyKey (queue s)) (env s) \<longrightarrow> listish (readyKey (queue s)) (env s'))
     \<and> (listish (unackedKey (queue s)) (env s) \<longrightarrow> listish (unackedKey (queue s)) (env s'))
     \<and> (\<exists>ps ts. published s' = published s @ ps
          \<and> delivered s' @ in_flight s' = delivered s @ in_flight s @ ts
          \<and> rev (lrange (readyKey (queue s)) (env s)) @ ps = ts @ rev (lrange (readyKey (queue s)) (env s'))
          \<and> lrange (unackedKey (queue s)) (env s') = rev ts @ lrange (unackedKey (queue s)) (env s))"

section \<open>Concrete inputs\<close>

text \<open>
  A queue as \<open>newQueue\<close> builds it, the same queue once consumption is prepared, and a
  world with given contents, no transport error and no other client.
\<close>

definition things :: Queue where
  "things = newQueue ''things'' ''host-a1b2c3'' ''rmq::connection::host-a1b2c3::queues''"

definition prepared :: Queue where
  "prepared = things\<lparr>deliveryChan := Some \<lparr>capacity = 10, buffer = []\<rparr>\<rparr>"

definition quiet_world :: "(string \<Rightarrow> rvalue option) \<Rightarrow> world" where
  "quiet_world m = \<lparr>kv = m, oplog = [], faulty = (\<lambda>i. False), others = (\<lambda>i. id), trace = []\<rparr>"

text \<open>
  A world in which another client pushes onto the unacked list just before the third
  command, and a world in which the third command fails.
\<close>

definition racing_world :: world where
  "racing_world =
     (quiet_world [unackedKey things \<mapsto> RList [''a'']])
       \<lparr>others := (\<lambda>i. if i = 2 then (\<lambda>m. m(unackedKey things \<mapsto> RList [''z''])) else id)\<rparr>"

definition flaky_world :: world where
  "flaky_world =
     (quiet_world [unackedKey things \<mapsto> RList [''c'', ''b'', ''a''], readyKey things \<mapsto> RList [''d'']])
       \<lparr>faulty := (\<lambda>i. i = 2)\<rparr>"


definition outage_world :: world where
  "outage_world = (quiet_world [readyKey things \<mapsto> RList [''a'']])\<lparr>faulty := (\<lambda>i. i < 3)\<rparr>"

definition busy_day :: "action list" where
  "busy_day = [DoPublish ''a'', DoPublish ''b'', DoPop, DoSend, DoPublish ''c'', DoReceive,
               DoPop, DoReceive, DoPop, DoSend, DoPublish ''d'']"

section \<open>Keys\<close>

lemma things_keys:
  "readyKey things = ''rmq::queue::things::ready''"
  "unackedKey things = ''rmq::connection::host-a1b2c3::queue::things::unacked''"
  "consumersKey things = ''rmq::connection::host-a1b2c3::queue::things::consumers''"
  "queuesKey things = ''rmq::connection::host-a1b2c3::queues''"
  "name things = ''things''"
  "connectionName things = ''host-a1b2c3''"
  "deliveryChan things = None"
  by (simp_all add: things_def newQueue_def connectionQueueUnackedTemplate_def
      connectionQueueConsumersTemplate_def queueReadyTemplate_def phConnection_def phQueue_def)

lemma things_distinct: "readyKey things \<noteq> unackedKey things"
  by (simp add: things_keys)

text \<open>
  The template of the ready key ends in \<open>y\<close> and that of the unacked key in \<open>d\<close>, and a
  replacement of a placeholder, which ends in a brace, leaves the last character of a
  template alone: the two keys of a queue that \<open>newQueue\<close> builds differ.
\<close>

lemma Replace1_keeps_last:
  assumes "old \<noteq> []"
  shows "s \<noteq> [] \<Longrightarrow> last old \<noteq> last s \<Longrightarrow>
         Replace1 s old new \<noteq> [] \<and> last (Replace1 s old new) = last s"
proof (induction s)
  case Nil
  then show ?case by simp
next
  case (Cons c s)
  show ?case
  proof (cases "prefix old (c # s)")
    case True
    then obtain rest where split: "c # s = old @ rest"
      by (auto simp: prefix_def)
    have "rest \<noteq> []"
      using split Cons.prems(2) by auto
    moreover have "drop (length old) (c # s) = rest"
      by (simp only: split) simp
    moreover have "last (c # s) = last rest"
      using \<open>rest \<noteq> []\<close> by (simp only: split) simp
    ultimately show ?thesis
      using True by simp
  next
    case False
    show ?thesis
    proof (cases s)
      case Nil
      then show ?thesis
        using False assms by simp
    next
      case (Cons d s')
      then have "s \<noteq> []" "last old \<noteq> last s"
        using Cons.prems(2) by simp_all
      then have "Replace1 s old new \<noteq> [] \<and> last (Replace1 s old new) = last s"
        by (rule Cons.IH)
      then show ?thesis
        using False Cons by simp
    qed
  qed
qed

lemma newQueue_keys_distinct:
  "readyKey (newQueue nm conn qsKey) \<noteq> unackedKey (newQueue nm conn qsKey)"
proof -
  have ph: "phQueue \<noteq> []" "phConnection \<noteq> []"
    by (simp_all add: phQueue_def phConnection_def)
  have r: "last (Replace1 queueReadyTemplate phQueue nm) = CHR ''y''"
    using Replace1_keeps_last [OF ph(1), of queueReadyTemplate nm]
    by (simp add: queueReadyTemplate_def phQueue_def)
  have u0: "Replace1 connectionQueueUnackedTemplate phConnection conn \<noteq> []
        \<and> last (Replace1 connectionQueueUnackedTemplate phConnection conn) = CHR ''d''"
    using Replace1_keeps_last [OF ph(2), of connectionQueueUnackedTemplate conn]
    by (simp add: connectionQueueUnackedTemplate_def phConnection_def)
  have u: "last (Replace1 (Replace1 connectionQueueUnackedTemplate phConnection conn) phQueue nm) = CHR ''d''"
    using Replace1_keeps_last [OF ph(1), of "Replace1 connectionQueueUnackedTemplate phConnection conn" nm] u0
    by (simp add: phQueue_def)
  show ?thesis
    using r u by (auto simp: newQueue_def Let_def)
qed

section \<open>The store commands without other clients\<close>

lemma seen_alone: "alone w \<Longrightarrow> seen w = kv w"
  by (simp add: seen_def alone_def)

lemma lrange_snoc_kv: "lrange k w = xs @ [m] \<Longrightarrow> kv w k = Some (RList (xs @ [m]))"
  by (auto simp: lrange_def split: option.splits rvalue.splits)

lemma BRPopLPush_alt:
  "BRPopLPush src dst w =
     (let w' = arrive (CmdBRPopLPush src dst) w in
      if fails w then Some (Err Transport, w')
      else case kv w' src of
          None \<Rightarrow> None
        | Some (RSet S) \<Rightarrow> Some (Err WrongType, w')
        | Some (RList zs) \<Rightarrow>
            if zs = [] then None
            else case store_list src (butlast zs) (kv w') dst of
                 None \<Rightarrow> Some (Val (last zs), w'\<lparr>kv := (store_list src (butlast zs) (kv w'))(dst \<mapsto> RList [last zs])\<rparr>)
               | Some (RList ys) \<Rightarrow> Some (Val (last zs), w'\<lparr>kv := (store_list src (butlast zs) (kv w'))(dst \<mapsto> RList (last zs # ys))\<rparr>)
               | Some (RSet S) \<Rightarrow> Some (Err WrongType, w'))"
  by (simp add: BRPopLPush_def Let_def split: option.splits rvalue.splits list.splits)

lemma pop_eval:
  assumes "src \<noteq> dst" "alone w" "\<not> fails w" "listish dst w" "lrange src w = xs @ [m]"
  shows "BRPopLPush src dst w =
           Some (Val m, w\<lparr>kv := (store_list src xs (kv w))(dst \<mapsto> RList (m # lrange dst w)),
                          oplog := oplog w @ [CmdBRPopLPush src dst]\<rparr>)"
proof -
  have k: "kv w src = Some (RList (xs @ [m]))"
    using assms(5) by (rule lrange_snoc_kv)
  have d: "store_list src xs (kv w) dst = kv w dst"
    using assms(1) by (simp add: store_list_def)
  show ?thesis
    using assms(3,4) k d
    unfolding BRPopLPush_alt Let_def seen_alone [OF assms(2)] arrive_def
    by (auto simp: lrange_def listish_def split: option.splits rvalue.splits)
qed

lemma pop_ok:
  assumes "src \<noteq> dst" "alone w" "\<not> fails w" "listish dst w" "lrange src w = xs @ [m]"
  shows "\<exists>w'. BRPopLPush src dst w = Some (Val m, w')
           \<and> lrange src w' = xs \<and> lrange dst w' = m # lrange dst w
           \<and> listish src w' \<and> listish dst w'
           \<and> oplog w' = oplog w @ [CmdBRPopLPush src dst]
           \<and> faulty w' = faulty w \<and> others w' = others w \<and> trace w' = trace w
           \<and> (\<forall>k. k \<noteq> src \<and> k \<noteq> dst \<longrightarrow> kv w' k = kv w k)"
  unfolding pop_eval [OF assms]
  using assms(1)
  by (auto simp: lrange_def listish_def store_list_def)

lemma single_last: "xs \<noteq> [] \<Longrightarrow> butlast xs = [] \<Longrightarrow> xs = [last xs]"
  by (metis append_butlast_last_id append_Nil)

lemma pop_val:
  assumes "BRPopLPush src dst w = Some (Val v, w')" "src \<noteq> dst" "alone w"
  shows "lrange src w = lrange src w' @ [v] \<and> lrange dst w' = v # lrange dst w
           \<and> listish src w' \<and> listish dst w'
           \<and> oplog w' = oplog w @ [CmdBRPopLPush src dst]
           \<and> faulty w' = faulty w \<and> others w' = others w \<and> trace w' = trace w
           \<and> (\<forall>k. k \<noteq> src \<and> k \<noteq> dst \<longrightarrow> kv w' k = kv w k)"
  using assms
  unfolding BRPopLPush_alt Let_def seen_alone [OF assms(3)] arrive_def
  by (auto simp: lrange_def listish_def store_list_def intro: single_last
      split: option.splits rvalue.splits if_splits)

lemma pop_err:
  assumes "BRPopLPush src dst w = Some (Err e, w')" "alone w"
  shows "kv w' = kv w \<and> oplog w' = oplog w @ [CmdBRPopLPush src dst]
           \<and> faulty w' = faulty w \<and> others w' = others w \<and> trace w' = trace w"
  using assms
  unfolding BRPopLPush_alt Let_def seen_alone [OF assms(2)] arrive_def
  by (auto split: option.splits rvalue.splits if_splits)

lemma pop_fault:
  "fails w \<Longrightarrow> BRPopLPush src dst w = Some (Err Transport, arrive (CmdBRPopLPush src dst) w)"
  by (simp add: BRPopLPush_def)

lemma llen_ok:
  assumes "alone w" "\<not> fails w" "listish k w"
  shows "LLen k w = (Val (int (length (lrange k w))), w\<lparr>oplog := oplog w @ [CmdLLen k]\<rparr>)"
  using assms
  unfolding LLen_def Let_def seen_alone [OF assms(1)] arrive_def
  by (auto simp: lrange_def listish_def split: option.splits rvalue.splits)

lemma llen_fault:
  "fails w \<Longrightarrow> LLen k w = (Err Transport, arrive (CmdLLen k) w)"
  by (simp add: LLen_def)

lemma lpush_cases:
  assumes "alone w"
  shows "(\<exists>n. LPush k v w = (Val n, w\<lparr>kv := (kv w)(k \<mapsto> RList (v # lrange k w)), oplog := oplog w @ [CmdLPush k v]\<rparr>))
         \<or> (\<exists>e. LPush k v w = (Err e, w\<lparr>oplog := oplog w @ [CmdLPush k v]\<rparr>))"
  unfolding LPush_def Let_def seen_alone [OF assms] arrive_def
  by (auto simp: lrange_def split: option.splits rvalue.splits)

section \<open>Purge and Clear\<close>

text \<open>
  C9. \<open>Purge\<close> sends one delete of the ready key. It returns true exactly when the delete
  removed a key, that is when the call did not fail and something was stored under the
  ready key when the command arrived; after a delete that did not fail nothing is stored
  under the ready key, and no other key is touched.
\<close>

theorem Purge_deletes_ready_key:
  "(fst (Purge q w) \<longleftrightarrow> \<not> fails w \<and> seen w (readyKey q) \<noteq> None)
   \<and> (\<not> fails w \<longrightarrow> kv (snd (Purge q w)) (readyKey q) = None)
   \<and> (\<forall>k. k \<noteq> readyKey q \<longrightarrow> kv (snd (Purge q w)) k = seen w k)
   \<and> oplog (snd (Purge q w)) = oplog w @ [CmdDel (readyKey q)]"
  by (auto simp: Purge_def Del_def arrive_def Let_def split: option.splits)

theorem Purge_deletes_ready_key_witness:
  "fst (Purge things (quiet_world [readyKey things \<mapsto> RList [''a'']]))
   \<and> kv (snd (Purge things (quiet_world [readyKey things \<mapsto> RList [''a'']]))) (readyKey things) = None
   \<and> \<not> fst (Purge things (quiet_world Map.empty))"
  using Purge_deletes_ready_key [of things "quiet_world [readyKey things \<mapsto> RList [''a'']]"]
        Purge_deletes_ready_key [of things "quiet_world Map.empty"]
  by (simp add: fails_def seen_def quiet_world_def)

text \<open>
  C7, as stated: \<open>Clear\<close> leaves the shared ready list unchanged. It does not: a ready
  list holding one payload is gone after \<open>Clear\<close>.
\<close>

theorem Clear_removes_ready_list:
  "kv (quiet_world [readyKey things \<mapsto> RList [''a'']]) (readyKey things) = Some (RList [''a''])
   \<and> kv (snd (Clear things (quiet_world [readyKey things \<mapsto> RList [''a'']]))) (readyKey things) = None"
  by (simp add: Clear_def Del_def arrive_def seen_def fails_def quiet_world_def)

text \<open>
  C7, amended. \<open>Clear\<close> sends one delete of the shared ready key and leaves the server
  as \<open>Purge\<close> leaves it. After a delete that did not fail nothing is stored under the
  ready key, the result is the number of keys removed (1 or 0) and nothing is logged.
  After a failed delete the result is 0, the server is as the command found it, and the
  one line that \<open>Clear\<close> logs names the queue and the error. No other key, and so no
  per-connection key, is touched.
\<close>

theorem Clear_deletes_ready_key:
  "kv (snd (Clear q w)) = kv (snd (Purge q w))
   \<and> (\<not> fails w \<longrightarrow> kv (snd (Clear q w)) (readyKey q) = None
         \<and> fst (Clear q w) = (if seen w (readyKey q) = None then 0 else 1)
         \<and> trace (snd (Clear q w)) = trace w)
   \<and> (fails w \<longrightarrow> fst (Clear q w) = 0
         \<and> kv (snd (Clear q w)) = seen w
         \<and> trace (snd (Clear q w)) = trace w @ [Log (FailedToClear (String_of q) Transport)])
   \<and> (\<forall>k. k \<noteq> readyKey q \<longrightarrow> kv (snd (Clear q w)) k = seen w k)
   \<and> oplog (snd (Clear q w)) = oplog w @ [CmdDel (readyKey q)]"
  by (auto simp: Clear_def Purge_def Del_def arrive_def logf_def Let_def split: option.splits)

theorem Clear_deletes_ready_key_witness:
  "fst (Clear things (quiet_world [readyKey things \<mapsto> RList [''a''], unackedKey things \<mapsto> RList [''b'']])) = 1
   \<and> kv (snd (Clear things (quiet_world [readyKey things \<mapsto> RList [''a''], unackedKey things \<mapsto> RList [''b'']]))) (readyKey things) = None
   \<and> kv (snd (Clear things (quiet_world [readyKey things \<mapsto> RList [''a''], unackedKey things \<mapsto> RList [''b'']]))) (unackedKey things) = Some (RList [''b''])
   \<and> trace (snd (Clear things (quiet_world [readyKey things \<mapsto> RList [''a''], unackedKey things \<mapsto> RList [''b'']]))) = []
   \<and> fst (Clear things outage_world) = 0
   \<and> kv (snd (Clear things outage_world)) (readyKey things) = Some (RList [''a''])
   \<and> trace (snd (Clear things outage_world)) = [Log (FailedToClear ''[things conn:host-a1b2c3]'' Transport)]"
proof -
  let ?w = "quiet_world [readyKey things \<mapsto> RList [''a''], unackedKey things \<mapsto> RList [''b'']]"
  note T = Clear_deletes_ready_key [of things ?w]
  note F = Clear_deletes_ready_key [of things outage_world]
  have nf: "\<not> fails ?w"
    by (simp add: fails_def quiet_world_def)
  have ne: "unackedKey things \<noteq> readyKey things"
    by (simp add: things_keys)
  have s1: "seen ?w (readyKey things) \<noteq> None"
    by (simp add: seen_def quiet_world_def)
  have s2: "seen ?w (unackedKey things) = Some (RList [''b''])"
    by (simp add: seen_def quiet_world_def)
  have t: "trace ?w = []"
    by (simp add: quiet_world_def)
  have f: "fails outage_world"
    by (simp add: fails_def outage_world_def quiet_world_def)
  have fs: "seen outage_world (readyKey things) = Some (RList [''a''])" and ft: "trace outage_world = []"
    by (simp_all add: seen_def outage_world_def quiet_world_def)
  have str: "String_of things = ''[things conn:host-a1b2c3]''"
    by (simp add: String_of_def things_keys)
  from T nf have "kv (snd (Clear things ?w)) (readyKey things) = None"
    by blast
  moreover from T nf s1 have "fst (Clear things ?w) = 1"
    by simp
  moreover from T ne s2 have "kv (snd (Clear things ?w)) (unackedKey things) = Some (RList [''b''])"
    by metis
  moreover from T nf t have "trace (snd (Clear things ?w)) = []"
    by simp
  moreover from F f have "fst (Clear things outage_world) = 0"
    by blast
  moreover have "kv (snd (Clear things outage_world)) (readyKey things) = Some (RList [''a''])"
  proof -
    from F f have "kv (snd (Clear things outage_world)) = seen outage_world"
      by blast
    then show ?thesis
      using fs by simp
  qed
  moreover from F f ft str
  have "trace (snd (Clear things outage_world)) = [Log (FailedToClear ''[things conn:host-a1b2c3]'' Transport)]"
    by simp
  ultimately show ?thesis
    by blast
qed

section \<open>PrepareConsumption and AddConsumer\<close>

text \<open>
  C4. On a queue that has a delivery channel \<open>PrepareConsumption\<close> returns false and
  leaves the queue and the world as they were: no command is sent, nothing is logged, no
  goroutine is started. A queue on which \<open>PrepareConsumption\<close> returned true is such a
  queue, so a further call returns false and changes nothing.
\<close>

theorem PrepareConsumption_already_consuming:
  "(deliveryChan q \<noteq> None \<longrightarrow> PrepareConsumption b q w = (Returns False, q, w))
   \<and> (PrepareConsumption b q w = (Returns True, q', w') \<longrightarrow>
        deliveryChan q' \<noteq> None \<and> PrepareConsumption b' q' w' = (Returns False, q', w'))"
  by (auto simp: PrepareConsumption_def Let_def split: prod.splits reply.splits if_splits)

theorem PrepareConsumption_already_consuming_witness:
  "fst (PrepareConsumption 10 things (quiet_world Map.empty)) = Returns True
   \<and> PrepareConsumption 3 (fst (snd (PrepareConsumption 10 things (quiet_world Map.empty))))
        (snd (snd (PrepareConsumption 10 things (quiet_world Map.empty))))
      = (Returns False, fst (snd (PrepareConsumption 10 things (quiet_world Map.empty))),
         snd (snd (PrepareConsumption 10 things (quiet_world Map.empty))))"
proof -
  let ?r = "PrepareConsumption 10 things (quiet_world Map.empty)"
  have ok: "fst ?r = Returns True"
    by (simp add: PrepareConsumption_def SAdd_def arrive_def seen_def fails_def
        quiet_world_def things_keys makechanLimit_def Let_def)
  then have eq: "?r = (Returns True, fst (snd ?r), snd (snd ?r))"
    by (metis prod.collapse)
  from PrepareConsumption_already_consuming
         [of things 10 "quiet_world Map.empty" "fst (snd ?r)" "snd (snd ?r)" 3] eq
  have "PrepareConsumption 3 (fst (snd ?r)) (snd (snd ?r)) = (Returns False, fst (snd ?r), snd (snd ?r))"
    by blast
  with ok show ?thesis
    by blast
qed

text \<open>
  Whenever \<open>PrepareConsumption\<close> goes through, the set-add is followed by a left-push to
  the same key.
\<close>

lemma PrepareConsumption_commands:
  assumes "deliveryChan q = None" "0 \<le> b" "b \<le> makechanLimit" "\<not> fails w"
    and "\<forall>xs. seen w (queuesKey q) \<noteq> Some (RList xs)"
  shows "fst (PrepareConsumption b q w) = Returns True
       \<and> oplog (snd (snd (PrepareConsumption b q w)))
           = oplog w @ [CmdSAdd (queuesKey q) (name q), CmdLPush (queuesKey q) (name q)]"
  using assms
  by (auto simp: PrepareConsumption_def SAdd_def LPush_def arrive_def logf_def spawn_def Let_def
      split: option.splits rvalue.splits)

text \<open>
  C6. \<open>PrepareConsumption\<close> on a fresh queue and an empty server sends two commands to the
  connection's queues key: the set-add of the queue name and then a left-push of the
  queue name. The server answers the push with a type error, which the code does not
  look at, and the key holds the set with the queue name.
\<close>

theorem PrepareConsumption_pushes_after_set_add:
  "PrepareConsumption 10 things (quiet_world Map.empty) =
     (Returns True, prepared,
      \<lparr>kv = [queuesKey things \<mapsto> RSet {''things''}],
       oplog = [CmdSAdd (queuesKey things) ''things'', CmdLPush (queuesKey things) ''things''],
       faulty = (\<lambda>i. False), others = (\<lambda>i. id),
       trace = [Log (StartedConsuming ''[things conn:host-a1b2c3]''), Go GoConsume]\<rparr>)"
  by (simp add: PrepareConsumption_def SAdd_def LPush_def arrive_def seen_def fails_def prepared_def
      quiet_world_def logf_def spawn_def String_of_def things_keys makechanLimit_def Let_def)

lemma length_NewLen: "length (NewLen n rnd) = n"
  by (simp add: NewLen_def)

lemma set_NewLen: "set (NewLen n rnd) \<subseteq> set StdChars"
proof -
  have "0 < length StdChars"
    by (simp add: StdChars_def)
  then have "StdChars ! (rnd i mod length StdChars) \<in> set StdChars" for i
    by simp
  then show ?thesis
    by (auto simp: NewLen_def)
qed

text \<open>
  When the set-add fails, \<open>AddConsumer\<close> returns the empty string and starts no worker.
\<close>

lemma AddConsumer_store_error:
  assumes "deliveryChan q \<noteq> None" "fails w"
  shows "fst (AddConsumer tag c rnd q w) = Returns []
       \<and> kv (snd (AddConsumer tag c rnd q w)) = seen w
       \<and> Go (GoAddConsumer c) \<notin> set (trace (snd (AddConsumer tag c rnd q w))) - set (trace w)"
  using assms
  by (auto simp: AddConsumer_def SAdd_def arrive_def logf_def Let_def)

text \<open>
  C8. On a queue without a delivery channel \<open>AddConsumer\<close> writes its diagnostic and
  panics, having sent no command. On a prepared queue, with a set-add that the server
  accepts, it returns the tag, a dash and a suffix of six characters, each a letter or a
  digit, that name is a member of the queue's consumers set, the set-add of the name is
  the one command sent, and the worker goroutine is started.
\<close>

theorem AddConsumer_name_or_panic:
  "(deliveryChan q = None \<longrightarrow>
      AddConsumer tag c rnd q w =
        (Panics (AddConsumerBeforePrepare (String_of q)), logf (FailedToAddConsumerPanic (String_of q)) w))
   \<and> (deliveryChan q \<noteq> None \<and> \<not> fails w
        \<and> (\<forall>xs. seen w (consumersKey q) \<noteq> Some (RList xs)) \<longrightarrow>
      (\<exists>suffix. length suffix = 6 \<and> set suffix \<subseteq> set StdChars
         \<and> fst (AddConsumer tag c rnd q w) = Returns (tag @ ''-'' @ suffix)
         \<and> tag @ ''-'' @ suffix \<in> smembers (consumersKey q) (snd (AddConsumer tag c rnd q w))
         \<and> oplog (snd (AddConsumer tag c rnd q w)) = oplog w @ [CmdSAdd (consumersKey q) (tag @ ''-'' @ suffix)])
      \<and> Go (GoAddConsumer c) \<in> set (trace (snd (AddConsumer tag c rnd q w))))"
proof (intro conjI impI)
  assume "deliveryChan q = None"
  then show "AddConsumer tag c rnd q w =
        (Panics (AddConsumerBeforePrepare (String_of q)), logf (FailedToAddConsumerPanic (String_of q)) w)"
    by (simp add: AddConsumer_def)
next
  assume h: "deliveryChan q \<noteq> None \<and> \<not> fails w \<and> (\<forall>xs. seen w (consumersKey q) \<noteq> Some (RList xs))"
  let ?sfx = "NewLen 6 rnd"
  have "length ?sfx = 6" "set ?sfx \<subseteq> set StdChars"
    by (simp_all add: length_NewLen set_NewLen)
  moreover from h have "fst (AddConsumer tag c rnd q w) = Returns (tag @ ''-'' @ ?sfx)"
    by (auto simp: AddConsumer_def SAdd_def arrive_def Let_def split: option.splits rvalue.splits)
  moreover from h have "tag @ ''-'' @ ?sfx \<in> smembers (consumersKey q) (snd (AddConsumer tag c rnd q w))"
    by (auto simp: AddConsumer_def SAdd_def arrive_def logf_def spawn_def smembers_def Let_def
        split: option.splits rvalue.splits)
  moreover from h have "oplog (snd (AddConsumer tag c rnd q w))
        = oplog w @ [CmdSAdd (consumersKey q) (tag @ ''-'' @ ?sfx)]"
    by (auto simp: AddConsumer_def SAdd_def arrive_def logf_def spawn_def Let_def
        split: option.splits rvalue.splits)
  ultimately show "\<exists>suffix. length suffix = 6 \<and> set suffix \<subseteq> set StdChars
         \<and> fst (AddConsumer tag c rnd q w) = Returns (tag @ ''-'' @ suffix)
         \<and> tag @ ''-'' @ suffix \<in> smembers (consumersKey q) (snd (AddConsumer tag c rnd q w))
         \<and> oplog (snd (AddConsumer tag c rnd q w)) = oplog w @ [CmdSAdd (consumersKey q) (tag @ ''-'' @ suffix)]"
    by blast
  from h show "Go (GoAddConsumer c) \<in> set (trace (snd (AddConsumer tag c rnd q w)))"
    by (auto simp: AddConsumer_def SAdd_def arrive_def logf_def spawn_def Let_def
        split: option.splits rvalue.splits)
qed

lemma NewLen_example: "NewLen 6 (\<lambda>i. 7 * i) = ''AHOVcj''"
  by (simp add: NewLen_def StdChars_def upt_rec)

theorem AddConsumer_name_or_panic_witness:
  "fst (AddConsumer ''worker'' (Handler 0) (\<lambda>i. 7 * i) things (quiet_world Map.empty))
     = Panics (AddConsumerBeforePrepare ''[things conn:host-a1b2c3]'')
   \<and> fst (AddConsumer ''worker'' (Handler 0) (\<lambda>i. 7 * i) prepared (quiet_world Map.empty))
       = Returns ''worker-AHOVcj''
   \<and> (\<exists>suffix. length suffix = 6
        \<and> ''worker'' @ ''-'' @ suffix
            \<in> smembers (consumersKey prepared)
                (snd (AddConsumer ''worker'' (Handler 0) (\<lambda>i. 7 * i) prepared (quiet_world Map.empty))))"
proof -
  let ?w = "quiet_world Map.empty" and ?r = "\<lambda>i::nat. 7 * i"
  have a: "deliveryChan things = None"
    by (simp add: things_keys)
  have b: "deliveryChan prepared \<noteq> None \<and> \<not> fails ?w
        \<and> (\<forall>xs. seen ?w (consumersKey prepared) \<noteq> Some (RList xs))"
    by (simp add: prepared_def fails_def seen_def quiet_world_def)
  have s: "String_of things = ''[things conn:host-a1b2c3]''"
    by (simp add: String_of_def things_keys)
  have v: "fst (AddConsumer ''worker'' (Handler 0) ?r prepared ?w) = Returns ''worker-AHOVcj''"
    by (simp add: AddConsumer_def SAdd_def arrive_def seen_def fails_def quiet_world_def prepared_def
        NewLen_example Let_def)
  from AddConsumer_name_or_panic [of things "''worker''" "Handler 0" ?r ?w] a s
  have "fst (AddConsumer ''worker'' (Handler 0) ?r things ?w)
          = Panics (AddConsumerBeforePrepare ''[things conn:host-a1b2c3]'')"
    by simp
  moreover from AddConsumer_name_or_panic [of prepared "''worker''" "Handler 0" ?r ?w] b
  have "\<exists>suffix. length suffix = 6
        \<and> ''worker'' @ ''-'' @ suffix
            \<in> smembers (consumersKey prepared) (snd (AddConsumer ''worker'' (Handler 0) ?r prepared ?w))"
    by blast
  ultimately show ?thesis
    using v by blast
qed

section \<open>ReturnUnackedDeliveries\<close>

lemma llen_val: "LLen k w = (Val m, w') \<Longrightarrow> m = int (length (lrange k w'))"
  by (auto simp: LLen_def Let_def lrange_def arrive_def split: if_splits option.splits rvalue.splits)

lemma return_loop_ok:
  assumes keys: "readyKey q \<noteq> unackedKey q"
  shows "alone w \<Longrightarrow> (\<forall>i<n. \<not> faulty w (length (oplog w) + i)) \<Longrightarrow>
         listish (readyKey q) w \<Longrightarrow> listish (unackedKey q) w \<Longrightarrow>
         lrange (unackedKey q) w = us @ ms \<Longrightarrow> length ms = n \<Longrightarrow>
         \<exists>w'. return_loop q n w = Some (None, w')
           \<and> lrange (unackedKey q) w' = us
           \<and> lrange (readyKey q) w' = ms @ lrange (readyKey q) w
           \<and> listish (unackedKey q) w' \<and> listish (readyKey q) w'
           \<and> oplog w' = oplog w @ replicate n (CmdBRPopLPush (unackedKey q) (readyKey q))
           \<and> faulty w' = faulty w \<and> others w' = others w \<and> trace w' = trace w
           \<and> (\<forall>k. k \<noteq> unackedKey q \<and> k \<noteq> readyKey q \<longrightarrow> kv w' k = kv w k)"
proof (induction n arbitrary: w ms)
  case 0
  then show ?case by simp
next
  case (Suc n)
  let ?uk = "unackedKey q" and ?rk = "readyKey q"
  from Suc.prems(6) obtain ms' m where ms: "ms = ms' @ [m]" and len: "length ms' = n"
    by (cases ms rule: rev_cases) auto
  have nf: "\<not> fails w"
    using Suc.prems(2) by (auto simp: fails_def)
  have src: "lrange ?uk w = (us @ ms') @ [m]"
    using Suc.prems(5) ms by simp
  from pop_ok [OF keys [symmetric] Suc.prems(1) nf Suc.prems(3) src]
  obtain w1 where pop: "BRPopLPush ?uk ?rk w = Some (Val m, w1)"
    and u1: "lrange ?uk w1 = us @ ms'" and r1: "lrange ?rk w1 = m # lrange ?rk w"
    and l1: "listish ?uk w1" "listish ?rk w1"
    and o1: "oplog w1 = oplog w @ [CmdBRPopLPush ?uk ?rk]"
    and e1: "faulty w1 = faulty w" "others w1 = others w" "trace w1 = trace w"
    and k1: "\<forall>k. k \<noteq> ?uk \<and> k \<noteq> ?rk \<longrightarrow> kv w1 k = kv w k"
    by blast
  have a1: "alone w1"
    using Suc.prems(1) e1 by (simp add: alone_def)
  have f1: "\<forall>i<n. \<not> faulty w1 (length (oplog w1) + i)"
    using Suc.prems(2) e1 o1 by auto
  from Suc.IH [OF a1 f1 l1(2) l1(1) u1 len]
  obtain w' where loop: "return_loop q n w1 = Some (None, w')"
    and u': "lrange ?uk w' = us" and r': "lrange ?rk w' = ms' @ lrange ?rk w1"
    and l': "listish ?uk w'" "listish ?rk w'"
    and o': "oplog w' = oplog w1 @ replicate n (CmdBRPopLPush ?uk ?rk)"
    and e': "faulty w' = faulty w1" "others w' = others w1" "trace w' = trace w1"
    and k': "\<forall>k. k \<noteq> ?uk \<and> k \<noteq> ?rk \<longrightarrow> kv w' k = kv w1 k"
    by blast
  have "return_loop q (Suc n) w = Some (None, w')"
    using pop loop by simp
  moreover have "lrange ?rk w' = ms @ lrange ?rk w"
    using r' r1 ms by simp
  moreover have "oplog w' = oplog w @ replicate (Suc n) (CmdBRPopLPush ?uk ?rk)"
    using o' o1 by (simp add: replicate_append_same)
  ultimately show ?case
    using u' l' e' e1 k' k1 by auto
qed

lemma return_loop_add:
  "return_loop q (a + b) w =
     (case return_loop q a w of
        None \<Rightarrow> None
      | Some (Some e, w') \<Rightarrow> Some (Some e, w')
      | Some (None, w') \<Rightarrow> return_loop q b w')"
  by (induction a arbitrary: w) (auto split: option.splits reply.splits prod.splits)

lemma arrive_alone:
  "alone w \<Longrightarrow> kv (arrive c w) = kv w"
  "oplog (arrive c w) = oplog w @ [c]"
  "faulty (arrive c w) = faulty w"
  "others (arrive c w) = others w"
  "trace (arrive c w) = trace w"
  by (simp_all add: arrive_def seen_alone)

lemma lrange_cong: "kv w' = kv w \<Longrightarrow> lrange k w' = lrange k w"
  by (simp add: lrange_def)

lemma listish_cong: "kv w' = kv w \<Longrightarrow> listish k w' = listish k w"
  by (simp add: listish_def)

lemma faults_shift:
  assumes "\<forall>i \<le> m. \<not> f (L + i)" "n \<le> m"
  shows "\<forall>i<n. \<not> f (Suc (L + i))"
proof (intro allI impI)
  fix i
  assume "i < n"
  then have "Suc i \<le> m"
    using assms(2) by simp
  then have "\<not> f (L + Suc i)"
    using assms(1) by blast
  then show "\<not> f (Suc (L + i))"
    by simp
qed

lemma return_loop_error:
  "return_loop q n w = Some (Some x, w') \<Longrightarrow> store_failure x"
  by (induction n arbitrary: w) (auto split: option.splits reply.splits prod.splits)

lemma return_all_quiet:
  assumes keys: "readyKey q \<noteq> unackedKey q"
    and h: "alone w \<and> (\<forall>i \<le> Suc (length (lrange (unackedKey q) w)). \<not> faulty w (length (oplog w) + i))
            \<and> listish (readyKey q) w \<and> listish (unackedKey q) w"
  shows "\<exists>w'. ReturnUnackedDeliveries q w = Some ((int (length (lrange (unackedKey q) w)), None), w')
             \<and> lrange (unackedKey q) w' = []
             \<and> lrange (readyKey q) w' = lrange (unackedKey q) w @ lrange (readyKey q) w
             \<and> oplog w' = oplog w @ CmdLLen (unackedKey q)
                   # replicate (length (lrange (unackedKey q) w)) (CmdBRPopLPush (unackedKey q) (readyKey q))
                   @ [CmdLLen (unackedKey q)]"
proof -
  let ?uk = "unackedKey q" and ?rk = "readyKey q"
  let ?n = "length (lrange ?uk w)"
  let ?w1 = "w\<lparr>oplog := oplog w @ [CmdLLen ?uk]\<rparr>"
  have nf: "\<not> fails w"
    using h by (auto simp: fails_def)
  have first: "LLen ?uk w = (Val (int ?n), ?w1)"
    using h nf by (simp add: llen_ok)
  have a1: "alone ?w1" and l1: "listish ?rk ?w1" "listish ?uk ?w1"
    and u1: "lrange ?uk ?w1 = [] @ lrange ?uk w" and r1: "lrange ?rk ?w1 = lrange ?rk w"
    using h by (simp_all add: alone_def listish_def lrange_def)
  have f1: "\<forall>i<?n. \<not> faulty ?w1 (length (oplog ?w1) + i)"
    using faults_shift [of "Suc ?n" "faulty w" "length (oplog w)" ?n] h by simp
  from return_loop_ok [OF keys a1 f1 l1 u1 refl]
  obtain w2 where loop: "return_loop q ?n ?w1 = Some (None, w2)"
    and u2: "lrange ?uk w2 = []" and r2: "lrange ?rk w2 = lrange ?uk w @ lrange ?rk ?w1"
    and l2: "listish ?uk w2"
    and o2: "oplog w2 = oplog ?w1 @ replicate ?n (CmdBRPopLPush ?uk ?rk)"
    and e2: "faulty w2 = faulty ?w1" "others w2 = others ?w1"
    by blast
  have a2: "alone w2"
    using a1 e2 by (simp add: alone_def)
  have nf2: "\<not> fails w2"
    using h e2 o2 by (auto simp: fails_def)
  let ?w3 = "w2\<lparr>oplog := oplog w2 @ [CmdLLen ?uk]\<rparr>"
  have last: "LLen ?uk w2 = (Val 0, ?w3)"
    using llen_ok [OF a2 nf2 l2] u2 by simp
  have "ReturnUnackedDeliveries q w = Some ((int ?n, None), ?w3)"
    using first loop last by (simp add: ReturnUnackedDeliveries_def)
  moreover have "lrange ?uk ?w3 = []" "lrange ?rk ?w3 = lrange ?uk w @ lrange ?rk w"
    using u2 r2 r1 by (simp_all add: lrange_def)
  moreover have "oplog ?w3 = oplog w @ CmdLLen ?uk # replicate ?n (CmdBRPopLPush ?uk ?rk) @ [CmdLLen ?uk]"
    using o2 by simp
  ultimately show ?thesis
    by blast
qed


lemma pop_step:
  assumes "src \<noteq> dst" "seen w = kv w" "\<not> fails w" "listish dst w" "lrange src w = xs @ [m]"
  shows "\<exists>w'. BRPopLPush src dst w = Some (Val m, w')
           \<and> lrange src w' = xs \<and> lrange dst w' = m # lrange dst w
           \<and> listish src w' \<and> listish dst w'
           \<and> oplog w' = oplog w @ [CmdBRPopLPush src dst]
           \<and> faulty w' = faulty w \<and> others w' = others w \<and> trace w' = trace w"
proof -
  have k: "kv w src = Some (RList (xs @ [m]))"
    using assms(5) by (rule lrange_snoc_kv)
  have d: "store_list src xs (kv w) dst = kv w dst"
    using assms(1) by (simp add: store_list_def)
  have "BRPopLPush src dst w =
           Some (Val m, w\<lparr>kv := (store_list src xs (kv w))(dst \<mapsto> RList (m # lrange dst w)),
                          oplog := oplog w @ [CmdBRPopLPush src dst]\<rparr>)"
    using assms(3,4) k d
    unfolding BRPopLPush_alt Let_def arrive_def assms(2)
    by (auto simp: lrange_def listish_def split: option.splits rvalue.splits)
  then show ?thesis
    using assms(1) by (auto simp: lrange_def listish_def store_list_def)
qed

lemma return_loop_calm:
  assumes keys: "readyKey q \<noteq> unackedKey q"
  shows "(\<forall>i<n. others w (length (oplog w) + i) = id) \<Longrightarrow>
         (\<forall>i<n. \<not> faulty w (length (oplog w) + i)) \<Longrightarrow>
         listish (readyKey q) w \<Longrightarrow> listish (unackedKey q) w \<Longrightarrow>
         lrange (unackedKey q) w = us @ ms \<Longrightarrow> length ms = n \<Longrightarrow>
         \<exists>w'. return_loop q n w = Some (None, w')
           \<and> lrange (unackedKey q) w' = us
           \<and> lrange (readyKey q) w' = ms @ lrange (readyKey q) w
           \<and> listish (unackedKey q) w' \<and> listish (readyKey q) w'
           \<and> oplog w' = oplog w @ replicate n (CmdBRPopLPush (unackedKey q) (readyKey q))
           \<and> faulty w' = faulty w \<and> others w' = others w \<and> trace w' = trace w"
proof (induction n arbitrary: w ms)
  case 0
  then show ?case by simp
next
  case (Suc n)
  let ?uk = "unackedKey q" and ?rk = "readyKey q"
  from Suc.prems(6) obtain ms' m where ms: "ms = ms' @ [m]" and len: "length ms' = n"
    by (cases ms rule: rev_cases) auto
  have nf: "\<not> fails w"
    using Suc.prems(2) [rule_format, of 0] by (simp add: fails_def)
  have sn: "seen w = kv w"
    using Suc.prems(1) [rule_format, of 0] by (simp add: seen_def)
  have src: "lrange ?uk w = (us @ ms') @ [m]"
    using Suc.prems(5) ms by simp
  from pop_step [OF keys [symmetric] sn nf Suc.prems(3) src]
  obtain w1 where pop: "BRPopLPush ?uk ?rk w = Some (Val m, w1)"
    and u1: "lrange ?uk w1 = us @ ms'" and r1: "lrange ?rk w1 = m # lrange ?rk w"
    and l1: "listish ?uk w1" "listish ?rk w1"
    and o1: "oplog w1 = oplog w @ [CmdBRPopLPush ?uk ?rk]"
    and e1: "faulty w1 = faulty w" "others w1 = others w" "trace w1 = trace w"
    by blast
  have c1: "\<forall>i<n. others w1 (length (oplog w1) + i) = id"
  proof (intro allI impI)
    fix i
    assume "i < n"
    then have "others w (length (oplog w) + Suc i) = id"
      using Suc.prems(1) [rule_format, of "Suc i"] by simp
    then show "others w1 (length (oplog w1) + i) = id"
      by (simp add: e1 o1)
  qed
  have f1: "\<forall>i<n. \<not> faulty w1 (length (oplog w1) + i)"
  proof (intro allI impI)
    fix i
    assume "i < n"
    then have "\<not> faulty w (length (oplog w) + Suc i)"
      using Suc.prems(2) [rule_format, of "Suc i"] by simp
    then show "\<not> faulty w1 (length (oplog w1) + i)"
      by (simp add: e1 o1)
  qed
  from Suc.IH [OF c1 f1 l1(2) l1(1) u1 len]
  obtain w' where loop: "return_loop q n w1 = Some (None, w')"
    and u': "lrange ?uk w' = us" and r': "lrange ?rk w' = ms' @ lrange ?rk w1"
    and l': "listish ?uk w'" "listish ?rk w'"
    and o': "oplog w' = oplog w1 @ replicate n (CmdBRPopLPush ?uk ?rk)"
    and e': "faulty w' = faulty w1" "others w' = others w1" "trace w' = trace w1"
    by blast
  have "return_loop q (Suc n) w = Some (None, w')"
    using pop loop by simp
  moreover have "lrange ?rk w' = ms @ lrange ?rk w"
    using r' r1 ms by simp
  moreover have "oplog w' = oplog w @ replicate (Suc n) (CmdBRPopLPush ?uk ?rk)"
    using o' o1 by (simp add: replicate_append_same)
  ultimately show ?case
    using u' l' e' e1 by auto
qed

lemma llen_seen:
  assumes "seen w = kv w" "\<not> fails w" "listish k w"
  shows "LLen k w = (Val (int (length (lrange k w))), w\<lparr>oplog := oplog w @ [CmdLLen k]\<rparr>)"
  using assms(2,3)
  unfolding LLen_def Let_def arrive_def assms(1)
  by (auto simp: lrange_def listish_def split: option.splits rvalue.splits)

lemma llen_found:
  assumes "\<not> fails w" "seen w k = Some (RList xs)"
  shows "LLen k w = (Val (int (length xs)), arrive (CmdLLen k) w)"
  using assms by (simp add: LLen_def Let_def arrive_def)

lemma new_unacked_after_moves:
  assumes keys: "readyKey q \<noteq> unackedKey q"
    and calm: "\<forall>i \<le> length (lrange (unackedKey q) w). others w (length (oplog w) + i) = id"
    and good: "\<forall>i \<le> Suc (length (lrange (unackedKey q) w)). \<not> faulty w (length (oplog w) + i)"
    and lr: "listish (readyKey q) w" and lu: "listish (unackedKey q) w"
    and push: "\<forall>m. others w (length (oplog w) + Suc (length (lrange (unackedKey q) w))) m (unackedKey q)
                   = Some (RList (x # xs))"
  shows "\<exists>w'. ReturnUnackedDeliveries q w = Some ((0, Some (NewUnacked (int (Suc (length xs))))), w')
           \<and> lrange (unackedKey q) w' = x # xs
           \<and> oplog w' = oplog w @ CmdLLen (unackedKey q)
                 # replicate (length (lrange (unackedKey q) w)) (CmdBRPopLPush (unackedKey q) (readyKey q))
                 @ [CmdLLen (unackedKey q)]"
proof -
  let ?uk = "unackedKey q" and ?rk = "readyKey q"
  let ?n = "length (lrange ?uk w)"
  let ?w1 = "w\<lparr>oplog := oplog w @ [CmdLLen ?uk]\<rparr>"
  have nf: "\<not> fails w"
    using good [rule_format, of 0] by (simp add: fails_def)
  have sn: "seen w = kv w"
    using calm [rule_format, of 0] by (simp add: seen_def)
  have first: "LLen ?uk w = (Val (int ?n), ?w1)"
    using llen_seen [OF sn nf lu] .
  have l1: "listish ?rk ?w1" "listish ?uk ?w1"
    and u1: "lrange ?uk ?w1 = [] @ lrange ?uk w"
    using lr lu by (simp_all add: listish_def lrange_def)
  have c1: "\<forall>i<?n. others ?w1 (length (oplog ?w1) + i) = id"
  proof (intro allI impI)
    fix i
    assume "i < ?n"
    then have "others w (length (oplog w) + Suc i) = id"
      using calm [rule_format, of "Suc i"] by simp
    then show "others ?w1 (length (oplog ?w1) + i) = id"
      by simp
  qed
  have f1: "\<forall>i<?n. \<not> faulty ?w1 (length (oplog ?w1) + i)"
  proof (intro allI impI)
    fix i
    assume "i < ?n"
    then have "\<not> faulty w (length (oplog w) + Suc i)"
      using good [rule_format, of "Suc i"] by simp
    then show "\<not> faulty ?w1 (length (oplog ?w1) + i)"
      by simp
  qed
  from return_loop_calm [OF keys c1 f1 l1 u1 refl]
  obtain w2 where loop: "return_loop q ?n ?w1 = Some (None, w2)"
    and o2: "oplog w2 = oplog ?w1 @ replicate ?n (CmdBRPopLPush ?uk ?rk)"
    and e2: "faulty w2 = faulty ?w1" "others w2 = others ?w1"
    by blast
  have len2: "length (oplog w2) = length (oplog w) + Suc ?n"
    using o2 by simp
  have nf2: "\<not> fails w2"
    using good [rule_format, of "Suc ?n"] e2 len2 by (simp add: fails_def)
  have found: "seen w2 ?uk = Some (RList (x # xs))"
    using push e2 len2 by (simp add: seen_def)
  let ?w3 = "arrive (CmdLLen ?uk) w2"
  have last: "LLen ?uk w2 = (Val (int (length (x # xs))), ?w3)"
    using nf2 found by (rule llen_found)
  have "ReturnUnackedDeliveries q w = Some ((0, Some (NewUnacked (int (Suc (length xs))))), ?w3)"
    using first loop last by (simp add: ReturnUnackedDeliveries_def)
  moreover have "lrange ?uk ?w3 = x # xs"
    using found by (simp add: lrange_def arrive_def)
  moreover have "oplog ?w3 = oplog w @ CmdLLen ?uk # replicate ?n (CmdBRPopLPush ?uk ?rk) @ [CmdLLen ?uk]"
    using o2 by (simp add: arrive_def)
  ultimately show ?thesis
    by blast
qed

lemma new_unacked_direct:
  assumes "LLen (unackedKey q) w = (Val cnt, w1)"
    and "return_loop q (nat cnt) w1 = Some (None, w2)"
    and "\<not> fails w2" and "seen w2 (unackedKey q) = Some (RList (x # xs))"
  shows "ReturnUnackedDeliveries q w
           = Some ((0, Some (NewUnacked (int (Suc (length xs))))), arrive (CmdLLen (unackedKey q)) w2)"
  using assms llen_found [OF assms(3,4)]
  by (simp add: ReturnUnackedDeliveries_def)

lemma racing_moves:
  "\<exists>w1 w2. LLen (unackedKey things) racing_world = (Val 1, w1)
     \<and> return_loop things (nat 1) w1 = Some (None, w2)
     \<and> \<not> fails w2 \<and> seen w2 (unackedKey things) = Some (RList [''z''])"
  by (simp add: LLen_def BRPopLPush_alt arrive_def seen_def fails_def
      store_list_def racing_world_def quiet_world_def things_keys Let_def)

text \<open>
  C1. On a queue whose ready and unacked keys differ, with both keys free of sets and no
  failing call. With no other client, \<open>ReturnUnackedDeliveries\<close> returns the length of the
  unacked list as its count and no error, the commands it sent are the length query, one
  blocking pop-push from unacked to ready for each element, and the length query again,
  the unacked list is empty afterwards and the ready list is the former unacked list in
  front of the former ready list. When the other clients keep still until the moves are
  done and then leave \<open>x # xs\<close> in the unacked list, the function sends the same commands
  and returns the count 0 with the consistency error that tells of the \<open>Suc (length xs)\<close>
  elements found. In any world: when the first length query gave a count, the loop of
  that many moves came to its end, and the second length query finds \<open>y # ys\<close>, the result
  is the count 0 with the consistency error.
\<close>

theorem ReturnUnackedDeliveries_moves_all:
  assumes keys: "readyKey q \<noteq> unackedKey q"
  shows "(alone w \<and> (\<forall>i \<le> Suc (length (lrange (unackedKey q) w)). \<not> faulty w (length (oplog w) + i))
            \<and> listish (readyKey q) w \<and> listish (unackedKey q) w \<longrightarrow>
          (\<exists>w'. ReturnUnackedDeliveries q w = Some ((int (length (lrange (unackedKey q) w)), None), w')
             \<and> lrange (unackedKey q) w' = []
             \<and> lrange (readyKey q) w' = lrange (unackedKey q) w @ lrange (readyKey q) w
             \<and> oplog w' = oplog w @ CmdLLen (unackedKey q)
                   # replicate (length (lrange (unackedKey q) w)) (CmdBRPopLPush (unackedKey q) (readyKey q))
                   @ [CmdLLen (unackedKey q)]))
       \<and> ((\<forall>i \<le> length (lrange (unackedKey q) w). others w (length (oplog w) + i) = id)
            \<and> (\<forall>i \<le> Suc (length (lrange (unackedKey q) w)). \<not> faulty w (length (oplog w) + i))
            \<and> listish (readyKey q) w \<and> listish (unackedKey q) w
            \<and> (\<forall>m. others w (length (oplog w) + Suc (length (lrange (unackedKey q) w))) m (unackedKey q)
                   = Some (RList (x # xs))) \<longrightarrow>
          (\<exists>w'. ReturnUnackedDeliveries q w = Some ((0, Some (NewUnacked (int (Suc (length xs))))), w')
             \<and> lrange (unackedKey q) w' = x # xs
             \<and> oplog w' = oplog w @ CmdLLen (unackedKey q)
                   # replicate (length (lrange (unackedKey q) w)) (CmdBRPopLPush (unackedKey q) (readyKey q))
                   @ [CmdLLen (unackedKey q)]))
       \<and> (LLen (unackedKey q) w = (Val cnt, w1) \<and> return_loop q (nat cnt) w1 = Some (None, w2)
            \<and> \<not> fails w2 \<and> seen w2 (unackedKey q) = Some (RList (y # ys)) \<longrightarrow>
          ReturnUnackedDeliveries q w
            = Some ((0, Some (NewUnacked (int (Suc (length ys))))), arrive (CmdLLen (unackedKey q)) w2))"
proof (intro conjI impI)
  assume "alone w \<and> (\<forall>i \<le> Suc (length (lrange (unackedKey q) w)). \<not> faulty w (length (oplog w) + i))
            \<and> listish (readyKey q) w \<and> listish (unackedKey q) w"
  with keys show "\<exists>w'. ReturnUnackedDeliveries q w = Some ((int (length (lrange (unackedKey q) w)), None), w')
             \<and> lrange (unackedKey q) w' = []
             \<and> lrange (readyKey q) w' = lrange (unackedKey q) w @ lrange (readyKey q) w
             \<and> oplog w' = oplog w @ CmdLLen (unackedKey q)
                   # replicate (length (lrange (unackedKey q) w)) (CmdBRPopLPush (unackedKey q) (readyKey q))
                   @ [CmdLLen (unackedKey q)]"
    by (rule return_all_quiet)
next
  assume h: "(\<forall>i \<le> length (lrange (unackedKey q) w). others w (length (oplog w) + i) = id)
            \<and> (\<forall>i \<le> Suc (length (lrange (unackedKey q) w)). \<not> faulty w (length (oplog w) + i))
            \<and> listish (readyKey q) w \<and> listish (unackedKey q) w
            \<and> (\<forall>m. others w (length (oplog w) + Suc (length (lrange (unackedKey q) w))) m (unackedKey q)
                   = Some (RList (x # xs)))"
  show "\<exists>w'. ReturnUnackedDeliveries q w = Some ((0, Some (NewUnacked (int (Suc (length xs))))), w')
             \<and> lrange (unackedKey q) w' = x # xs
             \<and> oplog w' = oplog w @ CmdLLen (unackedKey q)
                   # replicate (length (lrange (unackedKey q) w)) (CmdBRPopLPush (unackedKey q) (readyKey q))
                   @ [CmdLLen (unackedKey q)]"
    using h by (intro new_unacked_after_moves [OF keys]) blast+
next
  assume "LLen (unackedKey q) w = (Val cnt, w1) \<and> return_loop q (nat cnt) w1 = Some (None, w2)
            \<and> \<not> fails w2 \<and> seen w2 (unackedKey q) = Some (RList (y # ys))"
  then show "ReturnUnackedDeliveries q w
            = Some ((0, Some (NewUnacked (int (Suc (length ys))))), arrive (CmdLLen (unackedKey q)) w2)"
    by (intro new_unacked_direct) blast+
qed

theorem ReturnUnackedDeliveries_moves_all_witness:
  "(\<exists>w'. ReturnUnackedDeliveries things
            (quiet_world [unackedKey things \<mapsto> RList [''b'', ''a''], readyKey things \<mapsto> RList [''c'']])
          = Some ((2, None), w')
       \<and> lrange (unackedKey things) w' = []
       \<and> lrange (readyKey things) w' = [''b'', ''a'', ''c''])
   \<and> (\<exists>w'. ReturnUnackedDeliveries things racing_world = Some ((0, Some (NewUnacked 1)), w')
        \<and> lrange (unackedKey things) w' = [''z''])
   \<and> (\<exists>w2. ReturnUnackedDeliveries things racing_world
              = Some ((0, Some (NewUnacked 1)), arrive (CmdLLen (unackedKey things)) w2))"
proof -
  let ?uk = "unackedKey things" and ?rk = "readyKey things"
  let ?w = "quiet_world [?uk \<mapsto> RList [''b'', ''a''], ?rk \<mapsto> RList [''c'']]"
  have u: "lrange ?uk ?w = [''b'', ''a'']" and r: "lrange ?rk ?w = [''c'']"
    using things_distinct by (simp_all add: lrange_def quiet_world_def)
  have h: "alone ?w \<and> (\<forall>i \<le> Suc (length (lrange ?uk ?w)). \<not> faulty ?w (length (oplog ?w) + i))
      \<and> listish ?rk ?w \<and> listish ?uk ?w"
    using things_distinct by (simp add: u) (simp add: alone_def listish_def quiet_world_def)
  from ReturnUnackedDeliveries_moves_all [OF things_distinct, of ?w] h
  have "\<exists>w'. ReturnUnackedDeliveries things ?w = Some ((int (length (lrange ?uk ?w)), None), w')
       \<and> lrange ?uk w' = [] \<and> lrange ?rk w' = lrange ?uk ?w @ lrange ?rk ?w"
    by blast
  then have one: "\<exists>w'. ReturnUnackedDeliveries things ?w = Some ((2, None), w')
       \<and> lrange ?uk w' = [] \<and> lrange ?rk w' = [''b'', ''a'', ''c'']"
    by (simp add: u r)
  have ru: "lrange ?uk racing_world = [''a'']"
    by (simp add: lrange_def racing_world_def quiet_world_def)
  have g: "(\<forall>i \<le> length (lrange ?uk racing_world). others racing_world (length (oplog racing_world) + i) = id)
            \<and> (\<forall>i \<le> Suc (length (lrange ?uk racing_world)).
                  \<not> faulty racing_world (length (oplog racing_world) + i))
            \<and> listish ?rk racing_world \<and> listish ?uk racing_world
            \<and> (\<forall>m. others racing_world (length (oplog racing_world) + Suc (length (lrange ?uk racing_world)))
                      m ?uk = Some (RList (''z'' # [])))"
    by (simp add: ru) (auto simp: racing_world_def quiet_world_def listish_def)
  from ReturnUnackedDeliveries_moves_all [OF things_distinct, of racing_world "''z''" "[]"] g
  have "\<exists>w'. ReturnUnackedDeliveries things racing_world
                = Some ((0, Some (NewUnacked (int (Suc (length ([]::string list)))))), w')
             \<and> lrange ?uk w' = [''z'']"
    by blast
  then have two: "\<exists>w'. ReturnUnackedDeliveries things racing_world = Some ((0, Some (NewUnacked 1)), w')
        \<and> lrange ?uk w' = [''z'']"
    by simp
  from racing_moves obtain w1 w2 where m: "LLen ?uk racing_world = (Val 1, w1)
     \<and> return_loop things (nat 1) w1 = Some (None, w2)
     \<and> \<not> fails w2 \<and> seen w2 ?uk = Some (RList (''z'' # []))"
    by blast
  from ReturnUnackedDeliveries_moves_all [OF things_distinct, of racing_world _ _ 1 w1 w2 "''z''" "[]"] m
  have "ReturnUnackedDeliveries things racing_world
          = Some ((0, Some (NewUnacked (int (Suc (length ([]::string list)))))), arrive (CmdLLen ?uk) w2)"
    by blast
  then have three: "\<exists>w2. ReturnUnackedDeliveries things racing_world
              = Some ((0, Some (NewUnacked 1)), arrive (CmdLLen ?uk) w2)"
    by auto
  from one two three show ?thesis
    by blast
qed

text \<open>
  C10. On a queue whose ready and unacked keys differ, with no other client and both keys
  free of sets: when the length query and the first moves succeed and the next call
  fails, \<open>ReturnUnackedDeliveries\<close> returns the count 0 with the error of that call (a
  failed move, or the failed second length query when every element had been moved),
  the deliveries \<open>ms\<close> moved so far are in front of the ready list and the rest \<open>us\<close> is
  still in the unacked list: nothing is rolled back and the count does not tell of \<open>ms\<close>.
\<close>

theorem ReturnUnackedDeliveries_fails_partway:
  assumes keys: "readyKey q \<noteq> unackedKey q"
    and al: "alone w"
    and lr: "listish (readyKey q) w" and lu: "listish (unackedKey q) w"
    and split: "lrange (unackedKey q) w = us @ ms"
    and good: "\<forall>i \<le> length ms. \<not> faulty w (length (oplog w) + i)"
    and bad: "faulty w (length (oplog w) + Suc (length ms))"
  shows "\<exists>w'. ReturnUnackedDeliveries q w =
                Some ((0, Some (if us = [] then CountAfterFailed Transport else ReturnFailed Transport)), w')
           \<and> lrange (unackedKey q) w' = us
           \<and> lrange (readyKey q) w' = ms @ lrange (readyKey q) w"
proof -
  let ?uk = "unackedKey q" and ?rk = "readyKey q"
  let ?w1 = "w\<lparr>oplog := oplog w @ [CmdLLen ?uk]\<rparr>"
  have nf: "\<not> fails w"
    using good by (auto simp: fails_def)
  have first: "LLen ?uk w = (Val (int (length ms + length us)), ?w1)"
    using llen_ok [OF al nf lu] split by simp
  have a1: "alone ?w1" and l1: "listish ?rk ?w1" "listish ?uk ?w1"
    and u1: "lrange ?uk ?w1 = us @ ms" and r1: "lrange ?rk ?w1 = lrange ?rk w"
    using al lr lu split by (simp_all add: alone_def listish_def lrange_def)
  have f1: "\<forall>i<length ms. \<not> faulty ?w1 (length (oplog ?w1) + i)"
    using faults_shift [OF good order_refl] by simp
  from return_loop_ok [OF keys a1 f1 l1 u1 refl]
  obtain w2 where loop: "return_loop q (length ms) ?w1 = Some (None, w2)"
    and u2: "lrange ?uk w2 = us" and r2: "lrange ?rk w2 = ms @ lrange ?rk ?w1"
    and o2: "oplog w2 = oplog ?w1 @ replicate (length ms) (CmdBRPopLPush ?uk ?rk)"
    and e2: "faulty w2 = faulty ?w1" "others w2 = others ?w1"
    by blast
  have a2: "alone w2"
    using a1 e2 by (simp add: alone_def)
  have f2: "fails w2"
    using bad e2 o2 by (simp add: fails_def)
  have whole: "return_loop q (nat (int (length ms) + int (length us))) ?w1 = return_loop q (length us) w2"
  proof -
    have "nat (int (length ms) + int (length us)) = length ms + length us"
      by simp
    then show ?thesis
      using loop by (simp only: return_loop_add) simp
  qed
  show ?thesis
  proof (cases us)
    case Nil
    let ?w3 = "arrive (CmdLLen ?uk) w2"
    have "ReturnUnackedDeliveries q w = Some ((0, Some (CountAfterFailed Transport)), ?w3)"
      using first whole Nil llen_fault [OF f2, of ?uk]
      by (simp add: ReturnUnackedDeliveries_def)
    moreover have "lrange ?uk ?w3 = us" "lrange ?rk ?w3 = ms @ lrange ?rk w"
      using u2 r2 r1 arrive_alone(1) [OF a2] by (simp_all add: lrange_def)
    ultimately show ?thesis
      using Nil by auto
  next
    case (Cons u us')
    let ?w3 = "arrive (CmdBRPopLPush ?uk ?rk) w2"
    have "return_loop q (length us) w2 = Some (Some (ReturnFailed Transport), ?w3)"
      using Cons pop_fault [OF f2, of ?uk ?rk] by simp
    then have "ReturnUnackedDeliveries q w = Some ((0, Some (ReturnFailed Transport)), ?w3)"
      using first whole by (simp add: ReturnUnackedDeliveries_def)
    moreover have "lrange ?uk ?w3 = us" "lrange ?rk ?w3 = ms @ lrange ?rk w"
      using u2 r2 r1 arrive_alone(1) [OF a2] by (simp_all add: lrange_def)
    ultimately show ?thesis
      using Cons by auto
  qed
qed

theorem ReturnUnackedDeliveries_fails_partway_witness:
  "\<exists>w'. ReturnUnackedDeliveries things flaky_world = Some ((0, Some (ReturnFailed Transport)), w')
     \<and> lrange (unackedKey things) w' = [''c'', ''b'']
     \<and> lrange (readyKey things) w' = [''a'', ''d'']"
proof -
  let ?uk = "unackedKey things" and ?rk = "readyKey things"
  have al: "alone flaky_world"
    by (simp add: alone_def flaky_world_def quiet_world_def)
  have lr: "listish ?rk flaky_world" and lu: "listish ?uk flaky_world"
    by (simp_all add: listish_def flaky_world_def quiet_world_def)
  have split: "lrange ?uk flaky_world = [''c'', ''b''] @ [''a'']"
    and r: "lrange ?rk flaky_world = [''d'']"
    using things_distinct by (simp_all add: lrange_def flaky_world_def quiet_world_def)
  have good: "\<forall>i \<le> length [''a'']. \<not> faulty flaky_world (length (oplog flaky_world) + i)"
    by (simp add: flaky_world_def quiet_world_def)
  have bad: "faulty flaky_world (length (oplog flaky_world) + Suc (length [''a'']))"
    by (simp add: flaky_world_def quiet_world_def)
  from ReturnUnackedDeliveries_fails_partway [OF things_distinct al lr lu split good bad] r
  show ?thesis
    by simp
qed

section \<open>The fetcher loop\<close>















section \<open>Order of deliveries\<close>

lemma publish_ok:
  assumes "Publish q p w = (None, w')" "alone w"
  shows "kv w' = (kv w)(readyKey q \<mapsto> RList (p # lrange (readyKey q) w))
         \<and> others w' = others w \<and> faulty w' = faulty w"
  using assms lpush_cases [OF assms(2), of "readyKey q" p]
  by (auto simp: Publish_def split: prod.splits reply.splits)

lemma publish_err:
  assumes "Publish q p w = (Some e, w')" "alone w"
  shows "kv w' = kv w \<and> others w' = others w \<and> faulty w' = faulty w"
  using assms lpush_cases [OF assms(2), of "readyKey q" p]
  by (auto simp: Publish_def split: prod.splits reply.splits)

lemma consume_pop_some:
  assumes "consume_pop q w = Some (Some d, w')" "alone w" "readyKey q \<noteq> unackedKey q"
  shows "lrange (readyKey q) w = lrange (readyKey q) w' @ [payload d]
         \<and> lrange (unackedKey q) w' = payload d # lrange (unackedKey q) w
         \<and> listish (readyKey q) w' \<and> listish (unackedKey q) w'
         \<and> others w' = others w \<and> faulty w' = faulty w"
proof -
  from assms(1) obtain v where pop: "BRPopLPush (readyKey q) (unackedKey q) w = Some (Val v, w')"
    and d: "d = newDelivery v (unackedKey q)"
    by (auto simp: consume_pop_def split: option.splits prod.splits reply.splits)
  from pop_val [OF pop assms(3) assms(2)] d show ?thesis
    by (simp add: newDelivery_def)
qed

lemma consume_pop_none:
  assumes "consume_pop q w = Some (None, w')" "alone w"
  shows "kv w' = kv w \<and> others w' = others w \<and> faulty w' = faulty w"
proof -
  from assms(1) obtain e w1 where pop: "BRPopLPush (readyKey q) (unackedKey q) w = Some (Err e, w1)"
    and w': "w' = logf (FailedToConsume (String_of q) e) w1"
    by (auto simp: consume_pop_def split: option.splits prod.splits reply.splits)
  from pop_err [OF pop assms(2)] w' show ?thesis
    by (simp add: logf_def)
qed

lemma chan_send_some:
  "chan_send d ch = Some c \<Longrightarrow> \<exists>c0. ch = Some c0 \<and> buffer c = buffer c0 @ [d]"
  by (auto simp: chan_send_def split: option.splits if_splits)

lemma chan_recv_some:
  "chan_recv ch = Some (d, c) \<Longrightarrow> \<exists>c0. ch = Some c0 \<and> buffer c0 = d # buffer c"
  by (auto simp: chan_recv_def split: option.splits list.splits)

lemma chan_recv_none:
  "chan_recv (Some c0) = None \<Longrightarrow> buffer c0 = []"
  by (auto simp: chan_recv_def split: list.splits)

lemma moves_refl: "alone (env s) \<Longrightarrow> moves s s"
  by (simp add: moves_def)

lemma moves_trans:
  assumes "moves s s1" "moves s1 s2"
  shows "moves s s2"
proof -
  let ?rk = "readyKey (queue s)" and ?uk = "unackedKey (queue s)"
  from assms(1) obtain ps1 ts1 where
    k1: "readyKey (queue s1) = ?rk" "unackedKey (queue s1) = ?uk"
    and p1: "published s1 = published s @ ps1"
    and d1: "delivered s1 @ in_flight s1 = delivered s @ in_flight s @ ts1"
    and r1: "rev (lrange ?rk (env s)) @ ps1 = ts1 @ rev (lrange ?rk (env s1))"
    and u1: "lrange ?uk (env s1) = rev ts1 @ lrange ?uk (env s)"
    by (auto simp: moves_def)
  from assms(2) k1 obtain ps2 ts2 where
    p2: "published s2 = published s1 @ ps2"
    and d2: "delivered s2 @ in_flight s2 = delivered s1 @ in_flight s1 @ ts2"
    and r2: "rev (lrange ?rk (env s1)) @ ps2 = ts2 @ rev (lrange ?rk (env s2))"
    and u2: "lrange ?uk (env s2) = rev ts2 @ lrange ?uk (env s1)"
    by (auto simp: moves_def)
  have "published s2 = published s @ (ps1 @ ps2)"
    using p1 p2 by simp
  moreover have "delivered s2 @ in_flight s2 = delivered s @ in_flight s @ (ts1 @ ts2)"
    using d1 d2 by (metis append.assoc)
  moreover have "rev (lrange ?rk (env s)) @ (ps1 @ ps2) = (ts1 @ ts2) @ rev (lrange ?rk (env s2))"
    using r1 r2 by (metis append.assoc)
  moreover have "lrange ?uk (env s2) = rev (ts1 @ ts2) @ lrange ?uk (env s)"
    using u1 u2 by simp
  ultimately have "\<exists>ps ts. published s2 = published s @ ps
          \<and> delivered s2 @ in_flight s2 = delivered s @ in_flight s @ ts
          \<and> rev (lrange ?rk (env s)) @ ps = ts @ rev (lrange ?rk (env s2))
          \<and> lrange ?uk (env s2) = rev ts @ lrange ?uk (env s)"
    by blast
  then show ?thesis
    using assms k1 unfolding moves_def by simp
qed

lemma alone_cong: "others w' = others w \<Longrightarrow> alone w' = alone w"
  by (simp add: alone_def)

lemma step_moves:
  assumes st: "step a s = Some s'" and al: "alone (env s)"
    and keys: "readyKey (queue s) \<noteq> unackedKey (queue s)"
  shows "moves s s'"
proof (cases a)
  case (DoPublish p)
  let ?rk = "readyKey (queue s)" and ?uk = "unackedKey (queue s)"
  obtain r w1 where pub: "Publish (queue s) p (env s) = (r, w1)"
    by (cases "Publish (queue s) p (env s)")
  show ?thesis
  proof (cases r)
    case None
    from st DoPublish pub None have s': "s' = s\<lparr>env := w1, published := published s @ [p]\<rparr>"
      by simp
    from publish_ok [OF pub [unfolded None] al]
    have k: "kv w1 = (kv (env s))(?rk \<mapsto> RList (p # lrange ?rk (env s)))"
      and e: "others w1 = others (env s)" "faulty w1 = faulty (env s)"
      by simp_all
    have "lrange ?rk w1 = p # lrange ?rk (env s)" "lrange ?uk w1 = lrange ?uk (env s)"
      "listish ?rk w1" "listish ?uk w1 = listish ?uk (env s)"
      using k keys by (simp_all add: lrange_def listish_def)
    then show ?thesis
      using s' e al unfolding moves_def
      by (auto simp: alone_def in_flight_def intro!: exI [of _ "[p]"] exI [of _ "[]"])
  next
    case (Some err)
    from st DoPublish pub Some have s': "s' = s\<lparr>env := w1\<rparr>"
      by simp
    from publish_err [OF pub [unfolded Some] al]
    have k: "kv w1 = kv (env s)" and e: "others w1 = others (env s)" "faulty w1 = faulty (env s)"
      by simp_all
    show ?thesis
      using s' e al k unfolding moves_def
      by (auto simp: alone_def in_flight_def lrange_def listish_def)
  qed
next
  case DoPop
  let ?rk = "readyKey (queue s)" and ?uk = "unackedKey (queue s)"
  from st DoPop have at: "fetcher s = AtPop"
    by (auto split: fetcher.splits)
  from st DoPop at obtain r w1 where pop: "consume_pop (queue s) (env s) = Some (r, w1)"
    by (auto split: option.splits)
  show ?thesis
  proof (cases r)
    case None
    from st DoPop at pop None have s': "s' = s\<lparr>env := w1\<rparr>"
      by simp
    from consume_pop_none [OF pop [unfolded None] al]
    have k: "kv w1 = kv (env s)" and e: "others w1 = others (env s)" "faulty w1 = faulty (env s)"
      by simp_all
    show ?thesis
      using s' e al k unfolding moves_def
      by (auto simp: alone_def in_flight_def lrange_def listish_def)
  next
    case (Some d)
    from st DoPop at pop Some have s': "s' = s\<lparr>env := w1, fetcher := AtSend d\<rparr>"
      by simp
    from consume_pop_some [OF pop [unfolded Some] al keys]
    have r: "lrange ?rk (env s) = lrange ?rk w1 @ [payload d]"
      and u: "lrange ?uk w1 = payload d # lrange ?uk (env s)"
      and l: "listish ?rk w1" "listish ?uk w1"
      and e: "others w1 = others (env s)" "faulty w1 = faulty (env s)"
      by simp_all
    show ?thesis
      using s' e al r u l at unfolding moves_def
      by (auto simp: alone_def in_flight_def intro!: exI [of _ "[]"] exI [of _ "[payload d]"])
  qed
next
  case DoSend
  from st DoSend obtain d where at: "fetcher s = AtSend d"
    by (auto split: fetcher.splits)
  from st DoSend at obtain c where snd: "chan_send d (deliveryChan (queue s)) = Some c"
    and s': "s' = s\<lparr>queue := (queue s)\<lparr>deliveryChan := Some c\<rparr>, fetcher := AtPop\<rparr>"
    by (auto split: option.splits)
  from chan_send_some [OF snd] obtain c0 where c0: "deliveryChan (queue s) = Some c0"
    and b: "buffer c = buffer c0 @ [d]"
    by blast
  show ?thesis
    using s' al at c0 b unfolding moves_def
    by (auto simp: in_flight_def)
next
  case DoReceive
  show ?thesis
  proof (cases "chan_recv (deliveryChan (queue s))")
    case (Some dc)
    obtain d c where dc: "dc = (d, c)"
      by (cases dc)
    from st DoReceive Some dc
    have s': "s' = s\<lparr>queue := (queue s)\<lparr>deliveryChan := Some c\<rparr>, delivered := delivered s @ [payload d]\<rparr>"
      by simp
    from chan_recv_some [OF Some [unfolded dc]] obtain c0 where c0: "deliveryChan (queue s) = Some c0"
      and b: "buffer c0 = d # buffer c"
      by blast
    show ?thesis
      using s' al c0 b unfolding moves_def
      by (auto simp: in_flight_def)
  next
    case None
    from st DoReceive None obtain d where at: "fetcher s = AtSend d"
      by (auto split: fetcher.splits)
    from st DoReceive None at obtain c0 where c0: "deliveryChan (queue s) = Some c0"
      and s': "s' = s\<lparr>fetcher := AtPop, delivered := delivered s @ [payload d]\<rparr>"
      by (auto split: if_splits)
    from chan_recv_none [OF None [unfolded c0]] have b: "buffer c0 = []" .
    show ?thesis
      using s' al at c0 b unfolding moves_def
      by (auto simp: in_flight_def)
  qed
qed

lemma run_moves:
  "run acts s = Some s' \<Longrightarrow> alone (env s) \<Longrightarrow> readyKey (queue s) \<noteq> unackedKey (queue s) \<Longrightarrow> moves s s'"
proof (induction acts arbitrary: s)
  case Nil
  then show ?case by (simp add: moves_refl)
next
  case (Cons a acts)
  from Cons.prems(1) obtain s1 where st: "step a s = Some s1" and rest: "run acts s1 = Some s'"
    by (auto split: option.splits)
  have m1: "moves s s1"
    using st Cons.prems(2,3) by (rule step_moves)
  then have "alone (env s1)" "readyKey (queue s1) \<noteq> unackedKey (queue s1)"
    using Cons.prems(3) by (simp_all add: moves_def)
  with rest have "moves s1 s'"
    by (rule Cons.IH)
  with m1 show ?case
    by (rule moves_trans)
qed

lemma busy_day_run:
  "\<exists>s. run busy_day (start prepared (quiet_world Map.empty)) = Some s
      \<and> delivered s = [''a'', ''b''] \<and> in_flight s = [''c'']
      \<and> published s = [''a'', ''b'', ''c'', ''d'']
      \<and> lrange (readyKey prepared) (env s) = [''d'']
      \<and> lrange (unackedKey prepared) (env s) = [''c'', ''b'', ''a'']
      \<and> faulty (env s) = (\<lambda>i. False)
      \<and> queue s = prepared\<lparr>deliveryChan := Some \<lparr>capacity = 10, buffer = [newDelivery ''c'' (unackedKey things)]\<rparr>\<rparr>"
  by (simp add: busy_day_def start_def prepared_def quiet_world_def things_keys
      Publish_def LPush_def consume_pop_def BRPopLPush_alt store_list_def chan_send_def chan_recv_def
      newDelivery_def arrive_def seen_def fails_def in_flight_def lrange_def Let_def)

text \<open>
  C3. A queue whose ready and unacked keys differ, no other client, nothing in flight at
  the start, any schedule of the producer, the fetcher and the one worker, any failing
  calls. The payloads handed to the worker's handler are, in order, a prefix of what the
  ready list held at the start (right end first) followed by the payloads published
  since, in the order of their publication; the rest is in flight or still in the ready
  list, in that order. A successful \<open>Publish\<close> puts its payload at the left end of the
  ready list, and a successful pop-push of the fetcher takes the right end of the ready
  list and puts it at the left end of the unacked list in the same command.
\<close>

theorem single_consumer_fifo:
  assumes keys: "readyKey q \<noteq> unackedKey q" and al: "alone w"
    and nofl: "in_flight (start q w) = []"
    and run: "run acts (start q w) = Some s"
  shows "rev (lrange (readyKey q) w) @ published s
           = delivered s @ in_flight s @ rev (lrange (readyKey q) (env s))
       \<and> prefix (delivered s) (rev (lrange (readyKey q) w) @ published s)
       \<and> (\<forall>p w1. Publish q p w = (None, w1) \<longrightarrow>
             lrange (readyKey q) w1 = p # lrange (readyKey q) w)
       \<and> (\<forall>d w1. consume_pop q w = Some (Some d, w1) \<longrightarrow>
             lrange (readyKey q) w = lrange (readyKey q) w1 @ [payload d]
             \<and> lrange (unackedKey q) w1 = payload d # lrange (unackedKey q) w)"
proof -
  have "moves (start q w) s"
    using run al keys by (intro run_moves) (simp_all add: start_def)
  then obtain ps ts where p: "published s = ps"
    and d: "delivered s @ in_flight s = ts"
    and r: "rev (lrange (readyKey q) w) @ ps = ts @ rev (lrange (readyKey q) (env s))"
    using nofl by (auto simp: moves_def start_def)
  have eq: "rev (lrange (readyKey q) w) @ published s
           = delivered s @ in_flight s @ rev (lrange (readyKey q) (env s))"
    using p d r by simp
  then have pre: "prefix (delivered s) (rev (lrange (readyKey q) w) @ published s)"
    by (simp add: prefix_def)
  have pub: "\<forall>p w1. Publish q p w = (None, w1) \<longrightarrow> lrange (readyKey q) w1 = p # lrange (readyKey q) w"
    using publish_ok [OF _ al, of q] by (auto simp: lrange_def)
  have pop: "\<forall>d w1. consume_pop q w = Some (Some d, w1) \<longrightarrow>
             lrange (readyKey q) w = lrange (readyKey q) w1 @ [payload d]
             \<and> lrange (unackedKey q) w1 = payload d # lrange (unackedKey q) w"
    using consume_pop_some [OF _ al keys] by blast
  from eq pre pub pop show ?thesis
    by blast
qed

theorem single_consumer_fifo_witness:
  "\<exists>s. run busy_day (start prepared (quiet_world Map.empty)) = Some s
      \<and> published s = [''a'', ''b'', ''c'', ''d'']
      \<and> delivered s = [''a'', ''b'']
      \<and> prefix (delivered s) (published s)"
proof -
  let ?w = "quiet_world Map.empty"
  from busy_day_run obtain s where run: "run busy_day (start prepared ?w) = Some s"
    and p: "published s = [''a'', ''b'', ''c'', ''d'']" and d: "delivered s = [''a'', ''b'']"
    by blast
  have keys: "readyKey prepared \<noteq> unackedKey prepared"
    using things_distinct by (simp add: prepared_def)
  have al: "alone ?w"
    by (simp add: alone_def quiet_world_def)
  have nofl: "in_flight (start prepared ?w) = []"
    by (simp add: in_flight_def start_def prepared_def)
  have r: "lrange (readyKey prepared) ?w = []"
    by (simp add: lrange_def quiet_world_def)
  from single_consumer_fifo [OF keys al nofl run] r
  have "prefix (delivered s) (published s)"
    by simp
  with run p d show ?thesis
    by blast
qed

text \<open>
  C2. A queue whose ready and unacked keys differ, no other client, both keys free of
  sets, the unacked list empty and nothing in flight at the start, any schedule. The
  unacked list is then the deliveries taken by the fetcher, the latest at the left end.
  When the calls of \<open>ReturnUnackedDeliveries\<close> do not fail, it returns their number,
  empties the unacked list and leaves a ready list whose right pops give first what the
  ready list held before and then the returned deliveries in the order in which the
  fetcher took them.
\<close>

theorem repatriation_keeps_taken_order:
  assumes keys: "readyKey q \<noteq> unackedKey q" and al: "alone w"
    and lr: "listish (readyKey q) w" and lu: "listish (unackedKey q) w"
    and empty: "lrange (unackedKey q) w = []"
    and nofl: "in_flight (start q w) = []"
    and run: "run acts (start q w) = Some s"
    and good: "\<forall>i \<le> Suc (length (lrange (unackedKey q) (env s))).
                 \<not> faulty (env s) (length (oplog (env s)) + i)"
  shows "lrange (unackedKey q) (env s) = rev (delivered s @ in_flight s)
       \<and> (\<exists>w'. ReturnUnackedDeliveries (queue s) (env s)
                  = Some ((int (length (delivered s @ in_flight s)), None), w')
             \<and> lrange (unackedKey q) w' = []
             \<and> rev (lrange (readyKey q) w') = rev (lrange (readyKey q) (env s)) @ delivered s @ in_flight s)"
proof -
  have m: "moves (start q w) s"
    using run al keys by (intro run_moves) (simp_all add: start_def)
  then have k: "readyKey (queue s) = readyKey q" "unackedKey (queue s) = unackedKey q"
    and al': "alone (env s)"
    and l': "listish (readyKey q) (env s)" "listish (unackedKey q) (env s)"
    using lr lu by (simp_all add: moves_def start_def)
  from m obtain ts where d: "delivered s @ in_flight s = ts"
    and u: "lrange (unackedKey q) (env s) = rev ts"
    using nofl empty by (auto simp: moves_def start_def)
  have keys': "readyKey (queue s) \<noteq> unackedKey (queue s)"
    using keys k by simp
  from return_all_quiet [OF keys', of "env s"] al' l' good k
  obtain w' where "ReturnUnackedDeliveries (queue s) (env s)
        = Some ((int (length (lrange (unackedKey q) (env s))), None), w')"
    and "lrange (unackedKey q) w' = []"
    and "lrange (readyKey q) w' = lrange (unackedKey q) (env s) @ lrange (readyKey q) (env s)"
    by auto
  then show ?thesis
    using d u by auto
qed

theorem repatriation_keeps_taken_order_witness:
  "\<exists>s w'. run busy_day (start prepared (quiet_world Map.empty)) = Some s
      \<and> delivered s @ in_flight s = [''a'', ''b'', ''c'']
      \<and> lrange (unackedKey prepared) (env s) = [''c'', ''b'', ''a'']
      \<and> ReturnUnackedDeliveries (queue s) (env s) = Some ((3, None), w')
      \<and> rev (lrange (readyKey prepared) w') = [''d'', ''a'', ''b'', ''c'']"
proof -
  let ?w = "quiet_world Map.empty"
  from busy_day_run obtain s where run: "run busy_day (start prepared ?w) = Some s"
    and d: "delivered s = [''a'', ''b'']" "in_flight s = [''c'']"
    and r: "lrange (readyKey prepared) (env s) = [''d'']"
    and f: "faulty (env s) = (\<lambda>i. False)"
    by blast
  have keys: "readyKey prepared \<noteq> unackedKey prepared"
    using things_distinct by (simp add: prepared_def)
  have al: "alone ?w"
    by (simp add: alone_def quiet_world_def)
  have l: "listish (readyKey prepared) ?w" "listish (unackedKey prepared) ?w"
    by (simp_all add: listish_def quiet_world_def)
  have e: "lrange (unackedKey prepared) ?w = []"
    by (simp add: lrange_def quiet_world_def)
  have nofl: "in_flight (start prepared ?w) = []"
    by (simp add: in_flight_def start_def prepared_def)
  have good: "\<forall>i \<le> Suc (length (lrange (unackedKey prepared) (env s))).
                 \<not> faulty (env s) (length (oplog (env s)) + i)"
    by (simp add: f)
  from repatriation_keeps_taken_order [OF keys al l e nofl run good] d r
  have "lrange (unackedKey prepared) (env s) = [''c'', ''b'', ''a'']
       \<and> (\<exists>w'. ReturnUnackedDeliveries (queue s) (env s) = Some ((3, None), w')
             \<and> rev (lrange (readyKey prepared) w') = [''d'', ''a'', ''b'', ''c''])"
    by auto
  with run d show ?thesis
    by auto
qed

end
